theory Spec2Isabelle
  imports Complex_Main
begin

section \<open>Data model (models.py, config.py, exceptions.py)\<close>

text \<open>
  Identifiers. The services generate the strings \<^verbatim>\<open>"Driver n"\<close>, \<^verbatim>\<open>"Rider n"\<close> and
  \<^verbatim>\<open>"Request n"\<close> from a counter; the formatting is injective, so an identifier is
  represented by its number \<open>n\<close>. A string a caller supplies that names no entity is any
  number that is absent from the registry concerned.
  The timestamps \<^verbatim>\<open>created_at\<close> and \<^verbatim>\<open>updated_at\<close> of a request are wall-clock readings
  that no operation of the engine reads; they are left out.
\<close>

datatype DriverStatus = available | on_trip | offline

datatype RideRequestStatus = waiting | assigned | completed | failed

datatype TripPhase = to_pickup | to_dropoff

record driver =
  d_id :: nat
  d_x :: int
  d_y :: int
  d_status :: DriverStatus
  totalTrips :: int
  idleTicks :: int
  assignedRequestId :: "nat option"
  tripPhase :: "TripPhase option"
  targetX :: "int option"
  targetY :: "int option"

record rider =
  rider_ident :: nat
  rider_pickup_x :: int
  rider_pickup_y :: int
  rider_dropoff_x :: int
  rider_dropoff_y :: int

record request =
  r_id :: nat
  rider_id :: nat
  r_status :: RideRequestStatus
  pickup_x :: int
  pickup_y :: int
  dropoff_x :: int
  dropoff_y :: int
  assigned_driver_id :: "nat option"

text \<open>
  The exceptions the modelled code can raise. \<open>AttributeError\<close> and \<open>ZeroDivisionError\<close>
  are Python's own.
\<close>

datatype error =
    PositionOutOfBoundsError
  | ValueError
  | AttributeError
  | ZeroDivisionError

definition DEFAULT_GRID_WIDTH :: int where
  "DEFAULT_GRID_WIDTH = 20"

definition DEFAULT_GRID_HEIGHT :: int where
  "DEFAULT_GRID_HEIGHT = 20"

definition FAIRNESS_BONUS_MULTIPLIER :: int where
  "FAIRNESS_BONUS_MULTIPLIER = 10"

definition MAX_IDLE_TIME_BONUS :: int where
  "MAX_IDLE_TIME_BONUS = 50"


section \<open>Scoring (services/scoring\_service.py)\<close>

definition calculate_distance :: "int \<Rightarrow> int \<Rightarrow> int \<Rightarrow> int \<Rightarrow> int" where
  "calculate_distance from_x from_y to_x to_y = \<bar>from_x - to_x\<bar> + \<bar>from_y - to_y\<bar>"

text \<open>
  \<^verbatim>\<open>calculate_eta\<close> recomputes the distance inline and divides with Python's floor
  division \<^verbatim>\<open>//\<close>, which raises at a zero divisor. On integers \<open>div\<close> rounds towards
  minus infinity as \<^verbatim>\<open>//\<close> does.
\<close>

definition calculate_eta :: "int \<Rightarrow> int \<Rightarrow> int \<Rightarrow> int \<Rightarrow> int \<Rightarrow> error + int" where
  "calculate_eta from_x from_y to_x to_y driver_speed =
     (let distance = \<bar>from_x - to_x\<bar> + \<bar>from_y - to_y\<bar>
      in if driver_speed = 0 then Inl ZeroDivisionError
         else Inr ((distance + driver_speed - 1) div driver_speed))"

text \<open>
  \<^verbatim>\<open>calculate_driver_score\<close> calls \<^verbatim>\<open>calculate_eta\<close> with the default speed 1, where the
  division cannot raise (lemma \<open>calculate_eta_default\<close> below); the \<open>Inl\<close> branch is
  therefore never taken.
\<close>

definition calculate_driver_score :: "driver \<Rightarrow> request \<Rightarrow> int" where
  "calculate_driver_score drv req =
     (case calculate_eta (d_x drv) (d_y drv) (pickup_x req) (pickup_y req) 1 of
        Inl e \<Rightarrow> 0
      | Inr eta \<Rightarrow>
          (let fairness_bonus = totalTrips drv * FAIRNESS_BONUS_MULTIPLIER;
               idle_time_bonus = min (idleTicks drv) MAX_IDLE_TIME_BONUS
           in eta + fairness_bonus - idle_time_bonus))"

text \<open>
  A \<^verbatim>\<open>Driver\<close> object is shared between the driver list and the candidate lists built
  from it, and it is mutated in place. It is denoted by its position in the driver
  list \<open>ds\<close>; a candidate list is a list of such positions.
  \<^verbatim>\<open>list.sort(key=...)\<close> is stable, as \<open>sort_key\<close> is. \<^verbatim>\<open>scored_drivers[0]\<close> is read
  only after the emptiness check, where the list has a first element.
\<close>

definition find_best_driver :: "driver list \<Rightarrow> nat list \<Rightarrow> request \<Rightarrow> error + nat" where
  "find_best_driver ds cands req =
     (if cands = [] then Inl ValueError
      else
        (let scored_drivers = map (\<lambda>i. (i, calculate_driver_score (ds ! i) req)) cands
         in Inr (fst (hd (sort_key snd scored_drivers)))))"


section \<open>Registries (driver\_service.py, rider\_service.py, request\_service.py)\<close>

text \<open>
  The engine owns one instance of each service; their fields are gathered in one
  record. \<open>drivers\<close> is the list of \<^verbatim>\<open>DriverService\<close>; \<open>riders\<close> and \<open>requests\<close> are the
  dictionaries of \<^verbatim>\<open>RiderService\<close> and \<^verbatim>\<open>RequestService\<close>, kept as association lists in
  insertion order.

  A \<^verbatim>\<open>RideRequest\<close> object is shared between the request dictionary and the waiting
  queue. The queue code reads only the fields that never change after creation (id,
  rider id, positions), so the queue holds a copy of the request; a mutation of a
  request object is written to the dictionary entry of its id (\<open>store_request\<close>). A request
  object is enqueued once, when it is created.
\<close>

record engine =
  drivers :: "driver list"
  driver_counter :: nat
  riders :: "(nat \<times> rider) list"
  rider_counter :: nat
  requests :: "(nat \<times> request) list"
  request_counter :: nat
  request_queue :: "request list"

fun dict_set :: "nat \<Rightarrow> 'v \<Rightarrow> (nat \<times> 'v) list \<Rightarrow> (nat \<times> 'v) list" where
  "dict_set k v [] = [(k, v)]"
| "dict_set k v (p # ps) = (if fst p = k then (k, v) # ps else p # dict_set k v ps)"

definition store_request :: "request \<Rightarrow> (nat \<times> request) list \<Rightarrow> (nat \<times> request) list" where
  "store_request req reqs = map (\<lambda>p. if fst p = r_id req then (fst p, req) else p) reqs"

definition is_valid_position :: "int \<Rightarrow> int \<Rightarrow> bool" where
  "is_valid_position x y \<longleftrightarrow>
     0 \<le> x \<and> x < DEFAULT_GRID_WIDTH \<and> 0 \<le> y \<and> y < DEFAULT_GRID_HEIGHT"

text \<open>\<^verbatim>\<open>DriverService.add_driver\<close>; the result is the position of the new driver object.\<close>

definition driver_service_add_driver :: "int \<Rightarrow> int \<Rightarrow> engine \<Rightarrow> (error + nat) \<times> engine" where
  "driver_service_add_driver x y s =
     (if \<not> (0 \<le> x \<and> x < DEFAULT_GRID_WIDTH \<and> 0 \<le> y \<and> y < DEFAULT_GRID_HEIGHT)
      then (Inl PositionOutOfBoundsError, s)
      else
        (let n = driver_counter s + 1;
             drv = \<lparr>d_id = n, d_x = x, d_y = y, d_status = available, totalTrips = 0,
                    idleTicks = 0, assignedRequestId = None, tripPhase = None,
                    targetX = None, targetY = None\<rparr>
         in (Inr (length (drivers s)),
             s\<lparr>driver_counter := n, drivers := drivers s @ [drv]\<rparr>)))"

text \<open>\<^verbatim>\<open>DriverService.remove_driver\<close> deletes the first driver with the given id.\<close>

fun driver_service_remove_driver :: "nat \<Rightarrow> driver list \<Rightarrow> bool \<times> driver list" where
  "driver_service_remove_driver driver_id [] = (False, [])"
| "driver_service_remove_driver driver_id (d # ds) =
     (if d_id d = driver_id then (True, ds)
      else (let (found, ds') = driver_service_remove_driver driver_id ds
            in (found, d # ds')))"

definition get_available_drivers :: "driver list \<Rightarrow> nat list" where
  "get_available_drivers ds = filter (\<lambda>i. d_status (ds ! i) = available) [0..<length ds]"

definition get_busy_drivers :: "driver list \<Rightarrow> nat list" where
  "get_busy_drivers ds = filter (\<lambda>i. d_status (ds ! i) = on_trip) [0..<length ds]"

definition move_driver_one_step :: "driver \<Rightarrow> driver" where
  "move_driver_one_step drv =
     (case (targetX drv, targetY drv) of
        (Some tx, Some ty) \<Rightarrow>
          (let drv1 = (if d_x drv < tx then drv\<lparr>d_x := d_x drv + 1\<rparr>
                       else if d_x drv > tx then drv\<lparr>d_x := d_x drv - 1\<rparr>
                       else drv)
           in if d_y drv1 < ty then drv1\<lparr>d_y := d_y drv1 + 1\<rparr>
              else if d_y drv1 > ty then drv1\<lparr>d_y := d_y drv1 - 1\<rparr>
              else drv1)
      | _ \<Rightarrow> drv)"

definition complete_trip :: "driver \<Rightarrow> driver" where
  "complete_trip drv =
     drv\<lparr>d_status := available, tripPhase := None, targetX := None, targetY := None,
         assignedRequestId := None, totalTrips := totalTrips drv + 1, idleTicks := 0\<rparr>"

definition increment_idle_ticks :: "driver \<Rightarrow> driver" where
  "increment_idle_ticks drv = drv\<lparr>idleTicks := idleTicks drv + 1\<rparr>"

text \<open>\<^verbatim>\<open>RiderService.add_rider\<close>.\<close>

definition rider_service_add_rider ::
  "int \<Rightarrow> int \<Rightarrow> int \<Rightarrow> int \<Rightarrow> engine \<Rightarrow> (error + rider) \<times> engine" where
  "rider_service_add_rider px py dx dy s =
     (if \<not> is_valid_position px py then (Inl PositionOutOfBoundsError, s)
      else if \<not> is_valid_position dx dy then (Inl PositionOutOfBoundsError, s)
      else
        (let n = rider_counter s + 1;
             rdr = \<lparr>rider_ident = n, rider_pickup_x = px, rider_pickup_y = py,
                    rider_dropoff_x = dx, rider_dropoff_y = dy\<rparr>
         in (Inr rdr, s\<lparr>rider_counter := n, riders := dict_set n rdr (riders s)\<rparr>)))"

definition rider_service_remove_rider :: "nat \<Rightarrow> engine \<Rightarrow> bool \<times> engine" where
  "rider_service_remove_rider rid s =
     (if rid \<in> fst ` set (riders s)
      then (True, s\<lparr>riders := filter (\<lambda>p. fst p \<noteq> rid) (riders s)\<rparr>)
      else (False, s))"

text \<open>\<^verbatim>\<open>RequestService.create_request\<close>.\<close>

definition request_service_create_request :: "rider \<Rightarrow> engine \<Rightarrow> request \<times> engine" where
  "request_service_create_request rdr s =
     (let n = request_counter s + 1;
          req = \<lparr>r_id = n, rider_id = rider_ident rdr, r_status = waiting,
                 pickup_x = rider_pickup_x rdr, pickup_y = rider_pickup_y rdr,
                 dropoff_x = rider_dropoff_x rdr, dropoff_y = rider_dropoff_y rdr,
                 assigned_driver_id = None\<rparr>
      in (req, s\<lparr>request_counter := n, requests := dict_set n req (requests s)\<rparr>))"

text \<open>
  \<^verbatim>\<open>RequestService.get_request\<close> is \<^verbatim>\<open>dict.get\<close>; the engine calls it with
  \<^verbatim>\<open>driver.assignedRequestId\<close>, which may be \<^verbatim>\<open>None\<close> and then finds nothing.
\<close>

definition get_request :: "nat option \<Rightarrow> engine \<Rightarrow> request option" where
  "get_request request_id s =
     (case request_id of None \<Rightarrow> None | Some k \<Rightarrow> map_of (requests s) k)"

text \<open>
  \<^verbatim>\<open>RequestService.assign_request(request, driver)\<close> sets the status and then reads
  \<^verbatim>\<open>driver.id\<close>. The engine passes a \<^verbatim>\<open>Driver\<close> in one call and the value of
  \<^verbatim>\<open>request.assigned_driver_id\<close> (a string or \<^verbatim>\<open>None\<close>) in another; neither of the latter
  has an attribute \<^verbatim>\<open>id\<close>, so the read raises after the status was written.
\<close>

datatype driver_arg = A_driver driver | An_id "nat option"

definition assign_request :: "request \<Rightarrow> driver_arg \<Rightarrow> error option \<times> request" where
  "assign_request req arg =
     (let req1 = req\<lparr>r_status := assigned\<rparr>
      in case arg of
           A_driver drv \<Rightarrow> (None, req1\<lparr>assigned_driver_id := Some (d_id drv)\<rparr>)
         | An_id v \<Rightarrow> (Some AttributeError, req1))"

definition complete_request :: "request \<Rightarrow> request" where
  "complete_request req = req\<lparr>r_status := completed\<rparr>"

definition remove_requests_for_rider :: "nat \<Rightarrow> (nat \<times> request) list \<Rightarrow> (nat \<times> request) list" where
  "remove_requests_for_rider rid reqs = filter (\<lambda>p. rider_id (snd p) \<noteq> rid) reqs"


section \<open>Waiting queue (services/queue\_service.py)\<close>

text \<open>
  \<^verbatim>\<open>remove_from_queue\<close> tests \<^verbatim>\<open>request in self.request_queue\<close> and calls \<^verbatim>\<open>list.remove\<close>,
  which delete the first element equal to the request. Two request objects that are
  equal field by field have the same id, and the id identifies the object.
\<close>

fun remove_from_queue :: "request \<Rightarrow> request list \<Rightarrow> request list" where
  "remove_from_queue req [] = []"
| "remove_from_queue req (q # qs) =
     (if r_id q = r_id req then qs else q # remove_from_queue req qs)"

definition queue_assign_request_to_driver :: "request \<Rightarrow> driver \<Rightarrow> request \<times> driver" where
  "queue_assign_request_to_driver req drv =
     (req\<lparr>r_status := assigned, assigned_driver_id := Some (d_id drv)\<rparr>,
      drv\<lparr>d_status := on_trip, assignedRequestId := Some (r_id req),
          tripPhase := Some to_pickup, targetX := Some (pickup_x req),
          targetY := Some (pickup_y req), idleTicks := 0\<rparr>)"

text \<open>
  The loop of \<^verbatim>\<open>process_queue\<close> over a copy of the queue: \<open>remaining\<close> are the candidate
  drivers still free in this pass, \<open>ds\<close> the driver objects, \<open>processed\<close> the requests
  assigned so far (as mutated). An empty \<open>remaining\<close> is the \<^verbatim>\<open>break\<close>; a \<^verbatim>\<open>ValueError\<close>
  of \<open>find_best_driver\<close> is the \<^verbatim>\<open>continue\<close>.
\<close>

fun process_loop ::
  "request list \<Rightarrow> nat list \<Rightarrow> driver list \<Rightarrow> request list \<Rightarrow> driver list \<times> request list" where
  "process_loop [] remaining ds processed = (ds, processed)"
| "process_loop (req # rest) remaining ds processed =
     (if remaining = [] then (ds, processed)
      else
        (case find_best_driver ds remaining req of
           Inl e \<Rightarrow> process_loop rest remaining ds processed
         | Inr best \<Rightarrow>
             (let (req', drv') = queue_assign_request_to_driver req (ds ! best)
              in process_loop rest
                   (filter (\<lambda>d. d_id (ds ! d) \<noteq> d_id (ds ! best)) remaining)
                   (ds[best := drv'])
                   (processed @ [req']))))"

text \<open>
  \<^verbatim>\<open>QueueService.process_queue\<close>: the result is the driver objects after the pass, the
  queue after the pass, and the returned list of processed requests.
\<close>

definition process_queue ::
  "driver list \<Rightarrow> request list \<Rightarrow> nat list \<Rightarrow> driver list \<times> request list \<times> request list" where
  "process_queue ds queue available_drivers =
     (if available_drivers = [] \<or> queue = [] then (ds, queue, [])
      else
        (let (ds', processed) = process_loop queue available_drivers ds []
         in (ds', fold remove_from_queue processed queue, processed)))"


section \<open>Engine (simulation\_engine.py)\<close>

text \<open>
  An operation of the engine returns its result, or the exception it raised, together
  with the engine as the call left it: a raised exception does not undo the mutations
  made before it.
\<close>

text \<open>
  \<^verbatim>\<open>_process_queue\<close>. The requests mutated by \<^verbatim>\<open>process_queue\<close> are the objects of the
  request dictionary, hence the \<open>store_request\<close>. Then the loop over the processed
  requests calls \<^verbatim>\<open>assign_request(request, request.assigned_driver_id)\<close>.
\<close>

fun assign_processed :: "request list \<Rightarrow> engine \<Rightarrow> (error + unit) \<times> engine" where
  "assign_processed [] s = (Inr (), s)"
| "assign_processed (req # rest) s =
     (case assign_request req (An_id (assigned_driver_id req)) of
        (Some e, req') \<Rightarrow> (Inl e, s\<lparr>requests := store_request req' (requests s)\<rparr>)
      | (None, req') \<Rightarrow> assign_processed rest (s\<lparr>requests := store_request req' (requests s)\<rparr>))"

definition engine_process_queue :: "engine \<Rightarrow> (error + unit) \<times> engine" where
  "engine_process_queue s =
     (let available_drivers = get_available_drivers (drivers s);
          (ds', queue', processed_requests) =
             process_queue (drivers s) (request_queue s) available_drivers
      in assign_processed processed_requests
           (s\<lparr>drivers := ds', request_queue := queue',
              requests := fold store_request processed_requests (requests s)\<rparr>))"

text \<open>
  \<^verbatim>\<open>_assign_request_to_driver\<close> of the engine; \<open>best\<close> is the position of the driver
  object. The argument of \<open>assign_request\<close> is a driver here, so it does not raise.
\<close>

definition assign_request_to_driver :: "request \<Rightarrow> nat \<Rightarrow> engine \<Rightarrow> request \<times> engine" where
  "assign_request_to_driver req best s =
     (let drv = drivers s ! best;
          req' = snd (assign_request req (A_driver drv));
          drv' = drv\<lparr>d_status := on_trip, assignedRequestId := Some (r_id req),
                    tripPhase := Some to_pickup, targetX := Some (pickup_x req),
                    targetY := Some (pickup_y req), idleTicks := 0\<rparr>
      in (req', s\<lparr>requests := store_request req' (requests s),
                  drivers := (drivers s)[best := drv']\<rparr>))"

definition try_assign_request :: "request \<Rightarrow> engine \<Rightarrow> bool \<times> request \<times> engine" where
  "try_assign_request req s =
     (let available_drivers = get_available_drivers (drivers s)
      in if available_drivers = [] then (False, req, s)
         else
           (case find_best_driver (drivers s) available_drivers req of
              Inl e \<Rightarrow> (False, req, s)
            | Inr best \<Rightarrow>
                (let (req', s') = assign_request_to_driver req best s
                 in (True, req', s'))))"

definition add_driver :: "int \<Rightarrow> int \<Rightarrow> engine \<Rightarrow> (error + driver) \<times> engine" where
  "add_driver x y s =
     (case driver_service_add_driver x y s of
        (Inl e, s1) \<Rightarrow> (Inl e, s1)
      | (Inr pos, s1) \<Rightarrow>
          (case engine_process_queue s1 of
             (Inl e, s2) \<Rightarrow> (Inl e, s2)
           | (Inr u, s2) \<Rightarrow> (Inr (drivers s2 ! pos), s2)))"

definition remove_driver :: "nat \<Rightarrow> engine \<Rightarrow> bool \<times> engine" where
  "remove_driver driver_id s =
     (let (found, ds') = driver_service_remove_driver driver_id (drivers s)
      in (found, s\<lparr>drivers := ds'\<rparr>))"

definition add_rider ::
  "int \<Rightarrow> int \<Rightarrow> int \<Rightarrow> int \<Rightarrow> engine \<Rightarrow> (error + rider \<times> request) \<times> engine" where
  "add_rider px py dx dy s =
     (case rider_service_add_rider px py dx dy s of
        (Inl e, s1) \<Rightarrow> (Inl e, s1)
      | (Inr rdr, s1) \<Rightarrow>
          (let (req, s2) = request_service_create_request rdr s1;
               (ok, req', s3) = try_assign_request req s2
           in if \<not> ok
              then (Inr (rdr, req'), s3\<lparr>request_queue := request_queue s3 @ [req']\<rparr>)
              else (Inr (rdr, req'), s3)))"

text \<open>
  \<^verbatim>\<open>remove_rider\<close> walks a copy of the queue and removes each request of the rider.
\<close>

definition remove_rider :: "nat \<Rightarrow> engine \<Rightarrow> bool \<times> engine" where
  "remove_rider rid s =
     (let s1 = s\<lparr>requests := remove_requests_for_rider rid (requests s)\<rparr>;
          queue' = fold (\<lambda>req q. if rider_id req = rid then remove_from_queue req q else q)
                     (request_queue s1) (request_queue s1)
      in rider_service_remove_rider rid (s1\<lparr>request_queue := queue'\<rparr>))"

definition create_request :: "nat \<Rightarrow> engine \<Rightarrow> request option \<times> engine" where
  "create_request rid s =
     (case map_of (riders s) rid of
        None \<Rightarrow> (None, s)
      | Some rdr \<Rightarrow>
          (let (req, s2) = request_service_create_request rdr s;
               (ok, req', s3) = try_assign_request req s2
           in if \<not> ok
              then (Some req', s3\<lparr>request_queue := request_queue s3 @ [req']\<rparr>)
              else (Some req', s3)))"

text \<open>\<^verbatim>\<open>_complete_trip\<close>; \<open>i\<close> is the position of the driver object.\<close>

definition engine_complete_trip :: "nat \<Rightarrow> request \<Rightarrow> engine \<Rightarrow> (error + unit) \<times> engine" where
  "engine_complete_trip i req s =
     (let req' = complete_request req;
          s1 = s\<lparr>requests := store_request req' (requests s)\<rparr>;
          s2 = s1\<lparr>drivers := (drivers s1)[i := complete_trip (drivers s1 ! i)]\<rparr>;
          (found, s3) = remove_rider (rider_id req') s2
      in engine_process_queue s3)"

text \<open>\<^verbatim>\<open>_move_driver_one_step\<close> of the engine.\<close>

definition engine_move_driver_one_step :: "nat \<Rightarrow> engine \<Rightarrow> (error + unit) \<times> engine" where
  "engine_move_driver_one_step i s =
     (let drv = move_driver_one_step (drivers s ! i);
          s1 = s\<lparr>drivers := (drivers s)[i := drv]\<rparr>
      in if targetX drv \<noteq> None \<and> targetY drv \<noteq> None
            \<and> Some (d_x drv) = targetX drv \<and> Some (d_y drv) = targetY drv
         then
           (case get_request (assignedRequestId drv) s1 of
              None \<Rightarrow> (Inr (), s1)
            | Some req \<Rightarrow>
                (case tripPhase drv of
                   Some to_pickup \<Rightarrow>
                     (Inr (),
                      s1\<lparr>drivers := (drivers s1)[i := drv\<lparr>tripPhase := Some to_dropoff,
                                                       targetX := Some (dropoff_x req),
                                                       targetY := Some (dropoff_y req)\<rparr>]\<rparr>)
                 | Some to_dropoff \<Rightarrow> engine_complete_trip i req s1
                 | None \<Rightarrow> (Inr (), s1)))
         else (Inr (), s1))"

text \<open>
  \<^verbatim>\<open>advance_tick\<close>: the loop over the drivers that were busy when the tick began, the
  loop over the drivers available after it, the final drain.
\<close>

fun move_busy_drivers :: "nat list \<Rightarrow> engine \<Rightarrow> (error + unit) \<times> engine" where
  "move_busy_drivers [] s = (Inr (), s)"
| "move_busy_drivers (i # rest) s =
     (case engine_move_driver_one_step i s of
        (Inl e, s') \<Rightarrow> (Inl e, s')
      | (Inr u, s') \<Rightarrow> move_busy_drivers rest s')"

definition increment_available :: "driver list \<Rightarrow> driver list" where
  "increment_available ds =
     fold (\<lambda>i acc. acc[i := increment_idle_ticks (acc ! i)]) (get_available_drivers ds) ds"

definition advance_tick :: "engine \<Rightarrow> (error + unit) \<times> engine" where
  "advance_tick s =
     (case move_busy_drivers (get_busy_drivers (drivers s)) s of
        (Inl e, s1) \<Rightarrow> (Inl e, s1)
      | (Inr u, s1) \<Rightarrow>
          engine_process_queue (s1\<lparr>drivers := increment_available (drivers s1)\<rparr>))"

definition reset :: "engine \<Rightarrow> engine" where
  "reset s =
     s\<lparr>drivers := [], driver_counter := 0, riders := [], rider_counter := 0,
       requests := [], request_counter := 0, request_queue := []\<rparr>"

record stats =
  totalRequests :: nat
  completedRides :: nat
  failedRides :: nat
  averageETA :: nat
  activeDrivers :: nat
  totalDrivers :: nat

definition get_completed_requests :: "engine \<Rightarrow> request list" where
  "get_completed_requests s = filter (\<lambda>req. r_status req = completed) (map snd (requests s))"

definition get_stats :: "engine \<Rightarrow> stats" where
  "get_stats s =
     \<lparr>totalRequests = length (requests s),
      completedRides = length (get_completed_requests s),
      failedRides = 0,
      averageETA = 0,
      activeDrivers = length (filter (\<lambda>d. d_status d \<noteq> offline) (drivers s)),
      totalDrivers = length (drivers s)\<rparr>"

text \<open>
  The engine as \<^verbatim>\<open>SimulationEngine()\<close> creates it, the public operations as one
  datatype, and the states a sequence of calls can leave behind (whether a call
  returned or raised).
\<close>

definition new_engine :: engine where
  "new_engine =
     \<lparr>drivers = [], driver_counter = 0, riders = [], rider_counter = 0,
      requests = [], request_counter = 0, request_queue = []\<rparr>"

datatype operation =
    Add_driver int int
  | Remove_driver nat
  | Add_rider int int int int
  | Remove_rider nat
  | Create_request nat
  | Advance_tick
  | Reset

fun apply_operation :: "operation \<Rightarrow> engine \<Rightarrow> engine" where
  "apply_operation (Add_driver x y) s = snd (add_driver x y s)"
| "apply_operation (Remove_driver driver_id) s = snd (remove_driver driver_id s)"
| "apply_operation (Add_rider px py dx dy) s = snd (add_rider px py dx dy s)"
| "apply_operation (Remove_rider rid) s = snd (remove_rider rid s)"
| "apply_operation (Create_request rid) s = snd (create_request rid s)"
| "apply_operation Advance_tick s = snd (advance_tick s)"
| "apply_operation Reset s = reset s"

definition run :: "operation list \<Rightarrow> engine \<Rightarrow> engine" where
  "run ops s = fold apply_operation ops s"

definition reachable :: "engine \<Rightarrow> bool" where
  "reachable s \<longleftrightarrow> (\<exists>ops. s = run ops new_engine)"


section \<open>Example inputs\<close>

text \<open>Concrete drivers, requests and call sequences at which the theorems below are evaluated.\<close>

definition mk_driver :: "nat \<Rightarrow> int \<Rightarrow> int \<Rightarrow> int \<Rightarrow> int \<Rightarrow> driver" where
  "mk_driver n x y trips idle =
     \<lparr>d_id = n, d_x = x, d_y = y, d_status = available, totalTrips = trips,
      idleTicks = idle, assignedRequestId = None, tripPhase = None,
      targetX = None, targetY = None\<rparr>"

definition mk_request :: "nat \<Rightarrow> nat \<Rightarrow> int \<Rightarrow> int \<Rightarrow> int \<Rightarrow> int \<Rightarrow> request" where
  "mk_request n rid px py dx dy =
     \<lparr>r_id = n, rider_id = rid, r_status = waiting, pickup_x = px, pickup_y = py,
      dropoff_x = dx, dropoff_y = dy, assigned_driver_id = None\<rparr>"


section \<open>Invariants used in the proofs\<close>

text \<open>
  The state of the loop of \<open>process_queue\<close>, started on the driver objects \<open>ds0\<close> and the
  pool \<open>pool\<close>: driver ids do not change, the remaining candidates come from the pool,
  the drivers of the processed requests are pairwise distinct, come from the pool, and
  none of them is still a candidate.
\<close>

definition no_double_booking ::
  "driver list \<Rightarrow> nat list \<Rightarrow> nat list \<Rightarrow> driver list \<Rightarrow> request list \<Rightarrow> bool" where
  "no_double_booking ds0 pool remaining ds acc \<longleftrightarrow>
     (\<forall>i. d_id (ds ! i) = d_id (ds0 ! i))
     \<and> set remaining \<subseteq> set pool
     \<and> distinct (map assigned_driver_id acc)
     \<and> (\<forall>p\<in>set acc. r_status p = assigned
            \<and> (\<exists>i\<in>set pool. assigned_driver_id p = Some (d_id (ds0 ! i))))
     \<and> (\<forall>p\<in>set acc. \<forall>d\<in>set remaining. assigned_driver_id p \<noteq> Some (d_id (ds0 ! d)))"


text \<open>
  The grid invariant of the engine: every driver stands inside the grid and, when it
  has a target, the target is inside the grid; every rider and every request, in the
  registry or in the queue, has its pickup and dropoff inside the grid.
\<close>

definition driver_ok :: "driver \<Rightarrow> bool" where
  "driver_ok d \<longleftrightarrow>
     is_valid_position (d_x d) (d_y d)
     \<and> (case (targetX d, targetY d) of
          (Some tx, Some ty) \<Rightarrow> is_valid_position tx ty
        | _ \<Rightarrow> True)"

definition request_ok :: "request \<Rightarrow> bool" where
  "request_ok r \<longleftrightarrow>
     is_valid_position (pickup_x r) (pickup_y r) \<and> is_valid_position (dropoff_x r) (dropoff_y r)"

definition rider_ok :: "rider \<Rightarrow> bool" where
  "rider_ok r \<longleftrightarrow>
     is_valid_position (rider_pickup_x r) (rider_pickup_y r)
     \<and> is_valid_position (rider_dropoff_x r) (rider_dropoff_y r)"

definition grid_invariant :: "engine \<Rightarrow> bool" where
  "grid_invariant s \<longleftrightarrow>
     list_all driver_ok (drivers s)
     \<and> list_all (\<lambda>p. request_ok (snd p)) (requests s)
     \<and> list_all request_ok (request_queue s)
     \<and> list_all (\<lambda>p. rider_ok (snd p)) (riders s)"


text \<open>
  What the movement loop of a tick that does not raise can do to one driver object:
  leave its trip count alone, or complete its trip, which frees the driver, zeroes its
  idle ticks and adds one to its trip count.
\<close>

definition moved_or_completed :: "driver \<Rightarrow> driver \<Rightarrow> bool" where
  "moved_or_completed d d' \<longleftrightarrow>
     totalTrips d' = totalTrips d
     \<or> (d_status d' = available \<and> idleTicks d' = 0 \<and> totalTrips d' = totalTrips d + 1)"


text \<open>No request of the registry has the status completed.\<close>

definition none_completed :: "engine \<Rightarrow> bool" where
  "none_completed s \<longleftrightarrow> list_all (\<lambda>p. r_status (snd p) \<noteq> completed) (requests s)"


section \<open>Properties of the scoring functions\<close>

lemma calculate_eta_default:
  "calculate_eta fx fy tx ty 1 = Inr (calculate_distance fx fy tx ty)"
  by (simp add: calculate_eta_def calculate_distance_def)

lemma score_closed_form:
  "calculate_driver_score drv req =
     calculate_distance (d_x drv) (d_y drv) (pickup_x req) (pickup_y req)
       + totalTrips drv * 10 - min (idleTicks drv) 50"
  by (simp add: calculate_driver_score_def calculate_eta_default
      FAIRNESS_BONUS_MULTIPLIER_def MAX_IDLE_TIME_BONUS_def)

lemma ceiling_as_floor_division:
  fixes d s :: int
  assumes s: "1 \<le> s"
  shows "(d + s - 1) div s = - ((- d) div s)"
proof -
  define q where "q = (- d) div s"
  define r where "r = (- d) mod s"
  have d: "- d = q * s + r" by (simp add: q_def r_def)
  have r: "0 \<le> r" "r < s" using s by (simp_all add: r_def)
  have e: "d + s - 1 = (s - 1 - r) + (- q) * s" using d by (simp add: algebra_simps)
  have b: "0 \<le> s - 1 - r" "s - 1 - r < s" using r by simp_all
  have "(d + s - 1) div s = (s - 1 - r) div s + (- q)"
    unfolding e using s by (subst div_mult_self1) simp_all
  also have "(s - 1 - r) div s = 0" using b by simp
  finally show ?thesis by (simp add: q_def)
qed

text \<open>
  Claim C8. For a speed of at least 1, \<open>calculate_eta\<close> returns the integer ceiling of the
  Manhattan distance \<open>|x1 - x2| + |y1 - y2|\<close> divided by the speed; it is symmetric
  under swapping the two endpoints; a distance of 5 at speed 2 gives 3.
\<close>

theorem calculate_eta_is_ceiling:
  assumes "1 \<le> speed"
  shows "calculate_eta x1 y1 x2 y2 speed
           = Inr \<lceil>real_of_int (\<bar>x1 - x2\<bar> + \<bar>y1 - y2\<bar>) / real_of_int speed\<rceil>
       \<and> calculate_distance x1 y1 x2 y2 = \<bar>x1 - x2\<bar> + \<bar>y1 - y2\<bar>
       \<and> calculate_eta x2 y2 x1 y1 speed = calculate_eta x1 y1 x2 y2 speed
       \<and> (calculate_distance x1 y1 x2 y2 = 5 \<and> speed = 2
            \<longrightarrow> calculate_eta x1 y1 x2 y2 speed = Inr 3)"
proof -
  have ne: "speed \<noteq> 0" using assms by simp
  have c: "(d + speed - 1) div speed = \<lceil>real_of_int d / real_of_int speed\<rceil>" for d
    using assms by (simp add: ceiling_as_floor_division ceiling_divide_eq_div)
  have 1: "calculate_eta x1 y1 x2 y2 speed
           = Inr \<lceil>real_of_int (\<bar>x1 - x2\<bar> + \<bar>y1 - y2\<bar>) / real_of_int speed\<rceil>"
    using ne c [of "\<bar>x1 - x2\<bar> + \<bar>y1 - y2\<bar>"] by (simp add: calculate_eta_def)
  have 2: "calculate_eta x2 y2 x1 y1 speed = calculate_eta x1 y1 x2 y2 speed"
    by (simp add: calculate_eta_def abs_minus_commute)
  have 3: "calculate_distance x1 y1 x2 y2 = 5 \<and> speed = 2
            \<longrightarrow> calculate_eta x1 y1 x2 y2 speed = Inr 3"
    by (simp add: calculate_eta_def calculate_distance_def)
  show ?thesis using 1 2 3 by (simp add: calculate_distance_def)
qed

theorem calculate_eta_is_ceiling_witness:
  "(1::int) \<le> 2 \<and> calculate_distance 0 0 2 3 = 5
     \<and> calculate_eta 0 0 2 3 2 = Inr 3 \<and> calculate_eta 2 3 0 0 2 = Inr 3"
  using calculate_eta_is_ceiling [of 2 0 0 2 3] by simp

text \<open>
  Claim C5. The score of a driver for a request is the ETA from the driver's position
  to the pickup at speed 1, plus ten times the driver's total trips, minus the idle
  ticks capped at 50. Hence of two drivers with ETA 4 and no idle ticks, one with
  5 trips and one with none, the one without trips has the strictly lower score
  (4 against 54).
\<close>

theorem driver_score_formula:
  "(\<exists>eta. calculate_eta (d_x drv) (d_y drv) (pickup_x req) (pickup_y req) 1 = Inr eta
        \<and> calculate_driver_score drv req
            = eta + totalTrips drv * 10 - min (idleTicks drv) 50)
   \<and> (calculate_eta (d_x d1) (d_y d1) (pickup_x req) (pickup_y req) 1 = Inr 4
        \<and> calculate_eta (d_x d2) (d_y d2) (pickup_x req) (pickup_y req) 1 = Inr 4
        \<and> idleTicks d1 = 0 \<and> idleTicks d2 = 0 \<and> totalTrips d1 = 5 \<and> totalTrips d2 = 0
      \<longrightarrow> calculate_driver_score d2 req < calculate_driver_score d1 req
          \<and> calculate_driver_score d2 req = 4 \<and> calculate_driver_score d1 req = 54)"
  by (simp add: score_closed_form calculate_eta_default)

theorem driver_score_formula_witness:
  "calculate_eta 0 0 2 2 1 = Inr 4 \<and> calculate_eta 4 4 2 2 1 = Inr 4
   \<and> calculate_driver_score (mk_driver 2 4 4 0 0) (mk_request 1 1 2 2 9 9)
       < calculate_driver_score (mk_driver 1 0 0 5 0) (mk_request 1 1 2 2 9 9)"
  using driver_score_formula
    [of "mk_driver 1 0 0 5 0" "mk_request 1 1 2 2 9 9" "mk_driver 1 0 0 5 0" "mk_driver 2 4 4 0 0"]
  by (simp add: mk_driver_def mk_request_def calculate_eta_def)

lemma hd_insort_key:
  "hd (insort_key f x ys) = (if ys = [] \<or> f x \<le> f (hd ys) then x else hd ys)"
  by (cases ys) auto

lemma sort_key_not_Nil: "xs \<noteq> [] \<Longrightarrow> sort_key f xs \<noteq> []"
  by (metis length_sort length_0_conv)

lemma hd_sort_key_first_minimum:
  "xs \<noteq> [] \<Longrightarrow>
     \<exists>k<length xs. hd (sort_key f xs) = xs ! k
        \<and> (\<forall>j<length xs. f (xs ! k) \<le> f (xs ! j))
        \<and> (\<forall>j<k. f (xs ! k) < f (xs ! j))"
proof (induction xs)
  case Nil
  then show ?case by simp
next
  case (Cons x xs)
  show ?case
  proof (cases "xs = []")
    case True
    then show ?thesis by simp
  next
    case False
    from Cons.IH [OF False] obtain k where k: "k < length xs"
      and hk: "hd (sort_key f xs) = xs ! k"
      and mn: "\<forall>j<length xs. f (xs ! k) \<le> f (xs ! j)"
      and fs: "\<forall>j<k. f (xs ! k) < f (xs ! j)" by blast
    have ne: "sort_key f xs \<noteq> []" using False by (rule sort_key_not_Nil)
    have hd_eq: "hd (sort_key f (x # xs)) = (if f x \<le> f (xs ! k) then x else xs ! k)"
      using ne hk by (simp add: hd_insort_key)
    show ?thesis
    proof (cases "f x \<le> f (xs ! k)")
      case True
      have "\<forall>j<length (x # xs). f ((x # xs) ! 0) \<le> f ((x # xs) ! j)"
      proof (intro allI impI)
        fix j assume "j < length (x # xs)"
        then show "f ((x # xs) ! 0) \<le> f ((x # xs) ! j)"
          using True mn by (cases j) (auto intro: order_trans)
      qed
      then show ?thesis using True hd_eq
        by (intro exI [of _ 0]) simp
    next
      case False
      have a: "\<forall>j<length (x # xs). f ((x # xs) ! Suc k) \<le> f ((x # xs) ! j)"
      proof (intro allI impI)
        fix j assume "j < length (x # xs)"
        then show "f ((x # xs) ! Suc k) \<le> f ((x # xs) ! j)"
          using False mn by (cases j) auto
      qed
      have b: "\<forall>j<Suc k. f ((x # xs) ! Suc k) < f ((x # xs) ! j)"
      proof (intro allI impI)
        fix j assume "j < Suc k"
        then show "f ((x # xs) ! Suc k) < f ((x # xs) ! j)"
          using False fs by (cases j) auto
      qed
      show ?thesis using False hd_eq k a b
        by (intro exI [of _ "Suc k"]) simp
    qed
  qed
qed

lemma find_best_driver_Nil: "find_best_driver ds [] req = Inl ValueError"
  by (simp add: find_best_driver_def)

lemma find_best_driver_pick:
  assumes "cands \<noteq> []"
  shows "\<exists>k<length cands. find_best_driver ds cands req = Inr (cands ! k)
      \<and> (\<forall>j<length cands. calculate_driver_score (ds ! (cands ! k)) req
                              \<le> calculate_driver_score (ds ! (cands ! j)) req)
      \<and> (\<forall>j<k. calculate_driver_score (ds ! (cands ! k)) req
                              < calculate_driver_score (ds ! (cands ! j)) req)"
proof -
  let ?g = "\<lambda>i. (i, calculate_driver_score (ds ! i) req)"
  let ?xs = "map ?g cands"
  have "?xs \<noteq> []" using assms by simp
  from hd_sort_key_first_minimum [OF this, of snd]
  obtain k where k: "k < length ?xs"
    and hk: "hd (sort_key snd ?xs) = ?xs ! k"
    and mn: "\<forall>j<length ?xs. snd (?xs ! k) \<le> snd (?xs ! j)"
    and fs: "\<forall>j<k. snd (?xs ! k) < snd (?xs ! j)" by blast
  have k': "k < length cands" using k by simp
  have "find_best_driver ds cands req = Inr (cands ! k)"
    using assms hk k' by (simp add: find_best_driver_def)
  moreover have "\<forall>j<length cands. calculate_driver_score (ds ! (cands ! k)) req
                              \<le> calculate_driver_score (ds ! (cands ! j)) req"
    using mn k' by simp
  moreover have "\<forall>j<k. calculate_driver_score (ds ! (cands ! k)) req
                              < calculate_driver_score (ds ! (cands ! j)) req"
    using fs k' by simp
  ultimately show ?thesis using k' by blast
qed

lemma find_best_driver_mem:
  "find_best_driver ds cands req = Inr b \<Longrightarrow> b \<in> set cands"
  using find_best_driver_pick [of cands ds req]
  by (cases "cands = []") (auto simp: find_best_driver_Nil)

lemma find_best_driver_Inl:
  "find_best_driver ds cands req = Inl e \<Longrightarrow> cands = []"
  by (auto simp: find_best_driver_def split: if_splits)

text \<open>
  Claim C6. On the empty candidate list \<open>find_best_driver\<close> fails with \<open>ValueError\<close> (no
  drivers provided). On a non-empty list it returns a candidate of minimum score, and
  of the candidates with that minimum score the one that comes first in the list:
  every candidate before it has a strictly greater score.
\<close>

theorem find_best_driver_first_minimum:
  "find_best_driver ds [] req = Inl ValueError
   \<and> (cands \<noteq> [] \<longrightarrow>
        (\<exists>k<length cands. find_best_driver ds cands req = Inr (cands ! k)
           \<and> (\<forall>j<length cands. calculate_driver_score (ds ! (cands ! k)) req
                                   \<le> calculate_driver_score (ds ! (cands ! j)) req)
           \<and> (\<forall>j<k. calculate_driver_score (ds ! (cands ! k)) req
                                   < calculate_driver_score (ds ! (cands ! j)) req)))"
  using find_best_driver_pick [of cands ds req] by (simp add: find_best_driver_Nil)

theorem find_best_driver_first_minimum_witness:
  "[0::nat, 1, 2] \<noteq> []
   \<and> map (\<lambda>d. calculate_driver_score d (mk_request 1 1 0 0 9 9))
        [mk_driver 1 0 5 0 0, mk_driver 2 0 3 0 0, mk_driver 3 3 0 0 0] = [5, 3, 3]
   \<and> find_best_driver [mk_driver 1 0 5 0 0, mk_driver 2 0 3 0 0, mk_driver 3 3 0 0 0]
        [0, 1, 2] (mk_request 1 1 0 0 9 9) = Inr 1"
  using find_best_driver_first_minimum
    [of "[mk_driver 1 0 5 0 0, mk_driver 2 0 3 0 0, mk_driver 3 3 0 0 0]"
        "mk_request 1 1 0 0 9 9" "[0, 1, 2]"]
  by (simp add: find_best_driver_def mk_driver_def mk_request_def score_closed_form
      calculate_distance_def)

subsection \<open>The drain\<close>

lemma assign_processed_result:
  "fst (assign_processed ps s) = (if ps = [] then Inr () else Inl AttributeError)"
  by (cases ps) (simp_all add: assign_request_def)

lemma assign_processed_drivers [simp]:
  "drivers (snd (assign_processed ps s)) = drivers s"
  by (cases ps) (simp_all add: assign_request_def)

lemma assign_processed_queue [simp]:
  "request_queue (snd (assign_processed ps s)) = request_queue s"
  by (cases ps) (simp_all add: assign_request_def)

lemma assign_processed_riders [simp]:
  "riders (snd (assign_processed ps s)) = riders s"
  by (cases ps) (simp_all add: assign_request_def)

lemma assign_processed_requests:
  "requests (snd (assign_processed ps s)) =
     (case ps of [] \<Rightarrow> requests s
      | req # rest \<Rightarrow> store_request (req\<lparr>r_status := assigned\<rparr>) (requests s))"
  by (cases ps) (simp_all add: assign_request_def)

text \<open>One iteration of the loop with a non-empty candidate list always assigns.\<close>

lemma process_loop_step:
  assumes "remaining \<noteq> []"
  obtains best where "best \<in> set remaining"
    and "find_best_driver ds remaining req = Inr best"
    and "process_loop (req # rest) remaining ds acc =
           process_loop rest
             (filter (\<lambda>d. d_id (ds ! d) \<noteq> d_id (ds ! best)) remaining)
             (ds[best := snd (queue_assign_request_to_driver req (ds ! best))])
             (acc @ [fst (queue_assign_request_to_driver req (ds ! best))])"
proof -
  from find_best_driver_pick [OF assms, of ds req]
  obtain best where b: "find_best_driver ds remaining req = Inr best" by blast
  then have "best \<in> set remaining" by (rule find_best_driver_mem)
  moreover have "process_loop (req # rest) remaining ds acc =
           process_loop rest
             (filter (\<lambda>d. d_id (ds ! d) \<noteq> d_id (ds ! best)) remaining)
             (ds[best := snd (queue_assign_request_to_driver req (ds ! best))])
             (acc @ [fst (queue_assign_request_to_driver req (ds ! best))])"
    using assms b by (simp add: case_prod_beta)
  ultimately show thesis using b that by blast
qed

text \<open>An invariant of the loop state is an invariant of its result.\<close>

lemma process_loop_invariant:
  assumes init: "P remaining ds acc"
    and step: "\<And>req remaining ds acc best.
        P remaining ds acc \<Longrightarrow> req \<in> set queue \<Longrightarrow> best \<in> set remaining \<Longrightarrow>
        find_best_driver ds remaining req = Inr best \<Longrightarrow>
        P (filter (\<lambda>d. d_id (ds ! d) \<noteq> d_id (ds ! best)) remaining)
          (ds[best := snd (queue_assign_request_to_driver req (ds ! best))])
          (acc @ [fst (queue_assign_request_to_driver req (ds ! best))])"
  shows "\<exists>remaining'. P remaining' (fst (process_loop queue remaining ds acc))
                                 (snd (process_loop queue remaining ds acc))"
  using init step
proof (induction queue arbitrary: remaining ds acc)
  case Nil
  then show ?case by auto
next
  case (Cons req rest)
  show ?case
  proof (cases "remaining = []")
    case True
    then show ?thesis using Cons.prems(1) by auto
  next
    case False
    from process_loop_step [OF False, of ds req rest acc]
    obtain best where m: "best \<in> set remaining"
      and b: "find_best_driver ds remaining req = Inr best"
      and e: "process_loop (req # rest) remaining ds acc =
           process_loop rest
             (filter (\<lambda>d. d_id (ds ! d) \<noteq> d_id (ds ! best)) remaining)
             (ds[best := snd (queue_assign_request_to_driver req (ds ! best))])
             (acc @ [fst (queue_assign_request_to_driver req (ds ! best))])"
      by blast
    have p: "P (filter (\<lambda>d. d_id (ds ! d) \<noteq> d_id (ds ! best)) remaining)
          (ds[best := snd (queue_assign_request_to_driver req (ds ! best))])
          (acc @ [fst (queue_assign_request_to_driver req (ds ! best))])"
      using Cons.prems(2) [OF Cons.prems(1) _ m b] by simp
    have "\<exists>remaining'. P remaining'
        (fst (process_loop rest
             (filter (\<lambda>d. d_id (ds ! d) \<noteq> d_id (ds ! best)) remaining)
             (ds[best := snd (queue_assign_request_to_driver req (ds ! best))])
             (acc @ [fst (queue_assign_request_to_driver req (ds ! best))])))
        (snd (process_loop rest
             (filter (\<lambda>d. d_id (ds ! d) \<noteq> d_id (ds ! best)) remaining)
             (ds[best := snd (queue_assign_request_to_driver req (ds ! best))])
             (acc @ [fst (queue_assign_request_to_driver req (ds ! best))])))"
    proof (rule Cons.IH [OF p])
      fix req' remaining' ds' acc' best'
      assume "P remaining' ds' acc'" "req' \<in> set rest" "best' \<in> set remaining'"
        "find_best_driver ds' remaining' req' = Inr best'"
      then show "P (filter (\<lambda>d. d_id (ds' ! d) \<noteq> d_id (ds' ! best')) remaining')
          (ds'[best' := snd (queue_assign_request_to_driver req' (ds' ! best'))])
          (acc' @ [fst (queue_assign_request_to_driver req' (ds' ! best'))])"
        using Cons.prems(2) [of remaining' ds' acc' req' best'] by simp
    qed
    then show ?thesis unfolding e .
  qed
qed

lemma process_loop_acc_nonempty:
  "acc \<noteq> [] \<Longrightarrow> snd (process_loop queue remaining ds acc) \<noteq> []"
  using process_loop_invariant [where P = "\<lambda>r d a. a \<noteq> []" and remaining = remaining
      and ds = ds and acc = acc and queue = queue]
  by simp

lemma process_loop_nonempty:
  assumes "queue \<noteq> []" "remaining \<noteq> []"
  shows "snd (process_loop queue remaining ds []) \<noteq> []"
proof -
  obtain req rest where q: "queue = req # rest" using assms(1) by (cases queue) auto
  from process_loop_step [OF assms(2), of ds req rest "[]"]
  obtain best where e: "process_loop (req # rest) remaining ds [] =
           process_loop rest
             (filter (\<lambda>d. d_id (ds ! d) \<noteq> d_id (ds ! best)) remaining)
             (ds[best := snd (queue_assign_request_to_driver req (ds ! best))])
             ([] @ [fst (queue_assign_request_to_driver req (ds ! best))])"
    by blast
  show ?thesis unfolding q e by (rule process_loop_acc_nonempty) simp
qed

lemma process_queue_nonempty:
  assumes "queue \<noteq> []" "pool \<noteq> []"
  shows "snd (snd (process_queue ds queue pool)) \<noteq> []"
  using assms process_loop_nonempty [OF assms, of ds]
  by (simp add: process_queue_def case_prod_beta)

lemma process_queue_empty:
  "queue = [] \<or> pool = [] \<Longrightarrow> process_queue ds queue pool = (ds, queue, [])"
  by (auto simp: process_queue_def)

lemma engine_process_queue_unfold:
  "engine_process_queue s =
     assign_processed
       (snd (snd (process_queue (drivers s) (request_queue s) (get_available_drivers (drivers s)))))
       (s\<lparr>drivers :=
            fst (process_queue (drivers s) (request_queue s) (get_available_drivers (drivers s))),
          request_queue :=
            fst (snd (process_queue (drivers s) (request_queue s)
                        (get_available_drivers (drivers s)))),
          requests :=
            fold store_request
              (snd (snd (process_queue (drivers s) (request_queue s)
                           (get_available_drivers (drivers s)))))
              (requests s)\<rparr>)"
  by (simp add: engine_process_queue_def Let_def case_prod_beta)

lemma engine_process_queue_result:
  "fst (engine_process_queue s) =
     (if request_queue s = [] \<or> get_available_drivers (drivers s) = []
      then Inr () else Inl AttributeError)"
proof (cases "request_queue s = [] \<or> get_available_drivers (drivers s) = []")
  case True
  then show ?thesis
    by (auto simp: engine_process_queue_unfold process_queue_empty)
next
  case False
  then have "snd (snd (process_queue (drivers s) (request_queue s)
                        (get_available_drivers (drivers s)))) \<noteq> []"
    by (intro process_queue_nonempty) simp_all
  then show ?thesis using False
    by (simp add: engine_process_queue_unfold assign_processed_result)
qed

lemma engine_process_queue_noop:
  assumes "fst (engine_process_queue s) = Inr ()"
  shows "snd (engine_process_queue s) = s"
proof -
  from assms have "request_queue s = [] \<or> get_available_drivers (drivers s) = []"
    by (simp add: engine_process_queue_result split: if_splits)
  then show ?thesis
    by (auto simp: engine_process_queue_unfold process_queue_empty)
qed

subsection \<open>Bounds errors\<close>

lemma is_valid_position_iff:
  "is_valid_position x y \<longleftrightarrow> 0 \<le> x \<and> x < 20 \<and> 0 \<le> y \<and> y < 20"
  by (simp add: is_valid_position_def DEFAULT_GRID_WIDTH_def DEFAULT_GRID_HEIGHT_def)

lemma driver_service_add_driver_invalid:
  "\<not> is_valid_position x y \<Longrightarrow>
     driver_service_add_driver x y s = (Inl PositionOutOfBoundsError, s)"
  by (simp add: driver_service_add_driver_def is_valid_position_def)

lemma driver_service_add_driver_valid:
  "is_valid_position x y \<Longrightarrow>
     driver_service_add_driver x y s =
       (Inr (length (drivers s)),
        s\<lparr>driver_counter := driver_counter s + 1,
          drivers := drivers s @ [mk_driver (driver_counter s + 1) x y 0 0]\<rparr>)"
  by (simp add: driver_service_add_driver_def is_valid_position_def mk_driver_def)

lemma add_driver_invalid:
  "\<not> is_valid_position x y \<Longrightarrow> add_driver x y s = (Inl PositionOutOfBoundsError, s)"
  by (simp add: add_driver_def driver_service_add_driver_invalid)

lemma add_driver_valid:
  assumes "is_valid_position x y"
  shows "add_driver x y s =
     (let r = engine_process_queue
                (s\<lparr>driver_counter := driver_counter s + 1,
                   drivers := drivers s @ [mk_driver (driver_counter s + 1) x y 0 0]\<rparr>)
      in (case fst r of Inl e \<Rightarrow> Inl e | Inr u \<Rightarrow> Inr (drivers (snd r) ! length (drivers s)),
          snd r))"
  using assms
  by (simp add: add_driver_def driver_service_add_driver_valid Let_def
      split: prod.splits sum.splits)

lemma add_driver_valid_error:
  assumes "is_valid_position x y" "fst (add_driver x y s) = Inl e"
  shows "e = AttributeError"
  using assms(2)
  by (simp add: add_driver_valid [OF assms(1)] Let_def engine_process_queue_result
      split: if_splits)

lemma add_rider_invalid:
  "\<not> is_valid_position px py \<or> \<not> is_valid_position dx dy \<Longrightarrow>
     add_rider px py dx dy s = (Inl PositionOutOfBoundsError, s)"
  by (auto simp: add_rider_def rider_service_add_rider_def)

lemma add_rider_valid_returns:
  "is_valid_position px py \<Longrightarrow> is_valid_position dx dy \<Longrightarrow>
     \<exists>v. fst (add_rider px py dx dy s) = Inr v"
  by (simp add: add_rider_def rider_service_add_rider_def Let_def split: prod.splits)

text \<open>
  Claim C9. When \<open>add_driver\<close> or \<open>add_rider\<close> fails with the out-of-bounds error, the
  engine is left exactly as it was: no driver, rider or request was created, the queue
  is untouched and no counter has advanced. Every out-of-bounds coordinate produces
  that failure.
\<close>

theorem out_of_bounds_leaves_engine_unchanged:
  "(fst (add_driver x y s) = Inl PositionOutOfBoundsError \<longrightarrow> snd (add_driver x y s) = s)
   \<and> (fst (add_rider px py dx dy s) = Inl PositionOutOfBoundsError
        \<longrightarrow> snd (add_rider px py dx dy s) = s)
   \<and> (\<not> is_valid_position x y \<longrightarrow> add_driver x y s = (Inl PositionOutOfBoundsError, s))
   \<and> (\<not> is_valid_position px py \<or> \<not> is_valid_position dx dy
        \<longrightarrow> add_rider px py dx dy s = (Inl PositionOutOfBoundsError, s))"
proof (intro conjI impI)
  assume a: "fst (add_driver x y s) = Inl PositionOutOfBoundsError"
  show "snd (add_driver x y s) = s"
  proof (cases "is_valid_position x y")
    case True
    from add_driver_valid_error [OF True a] show ?thesis by simp
  next
    case False
    then show ?thesis by (simp add: add_driver_invalid)
  qed
next
  assume a: "fst (add_rider px py dx dy s) = Inl PositionOutOfBoundsError"
  show "snd (add_rider px py dx dy s) = s"
  proof (cases "is_valid_position px py \<and> is_valid_position dx dy")
    case True
    then show ?thesis using a add_rider_valid_returns [of px py dx dy s] by auto
  next
    case False
    then show ?thesis by (simp add: add_rider_invalid)
  qed
next
  assume "\<not> is_valid_position x y"
  then show "add_driver x y s = (Inl PositionOutOfBoundsError, s)"
    by (rule add_driver_invalid)
next
  assume "\<not> is_valid_position px py \<or> \<not> is_valid_position dx dy"
  then show "add_rider px py dx dy s = (Inl PositionOutOfBoundsError, s)"
    by (rule add_rider_invalid)
qed

theorem out_of_bounds_leaves_engine_unchanged_witness:
  "\<not> is_valid_position 20 5 \<and> \<not> is_valid_position 3 (- 1)
   \<and> add_driver 20 5 (snd (add_driver 1 1 new_engine))
       = (Inl PositionOutOfBoundsError, snd (add_driver 1 1 new_engine))
   \<and> add_rider 0 0 3 (- 1) (snd (add_driver 1 1 new_engine))
       = (Inl PositionOutOfBoundsError, snd (add_driver 1 1 new_engine))"
  using out_of_bounds_leaves_engine_unchanged
    [of 20 5 "snd (add_driver 1 1 new_engine)" 0 0 3 "- 1"]
  by (simp add: is_valid_position_iff)

subsection \<open>Adding a driver while requests wait\<close>

lemma get_available_drivers_snoc:
  "d_status drv = available \<Longrightarrow> get_available_drivers (ds @ [drv]) \<noteq> []"
proof -
  assume "d_status drv = available"
  then have "length ds \<in> set (get_available_drivers (ds @ [drv]))"
    by (simp add: get_available_drivers_def)
  then show ?thesis by auto
qed

text \<open>
  Claim C2 says that \<open>add_driver\<close> with in-bounds coordinates succeeds when a request
  waits in the queue. The code does drain the queue, but the call never returns the
  driver: \<open>engine_process_queue\<close> hands \<open>assign_request\<close> the driver id where a driver
  object is expected, and the call ends in \<open>AttributeError\<close>, for every engine with a
  non-empty queue.
\<close>

theorem add_driver_raises_on_waiting_queue:
  assumes "request_queue s \<noteq> []" "is_valid_position x y"
  shows "fst (add_driver x y s) = Inl AttributeError"
proof -
  let ?s1 = "s\<lparr>driver_counter := driver_counter s + 1,
          drivers := drivers s @ [mk_driver (driver_counter s + 1) x y 0 0]\<rparr>"
  have "get_available_drivers (drivers ?s1) \<noteq> []"
    by (simp add: get_available_drivers_snoc mk_driver_def)
  then have "fst (engine_process_queue ?s1) = Inl AttributeError"
    using assms(1) by (simp add: engine_process_queue_result)
  then show ?thesis
    by (simp add: add_driver_valid [OF assms(2)] Let_def)
qed

theorem add_driver_raises_on_waiting_queue_witness:
  "request_queue (run [Add_rider 0 5 0 10] new_engine) \<noteq> [] \<and> is_valid_position 0 0
   \<and> map (\<lambda>p. r_status (snd p)) (requests (run [Add_rider 0 5 0 10] new_engine)) = [waiting]
   \<and> fst (add_driver 0 0 (run [Add_rider 0 5 0 10] new_engine)) = Inl AttributeError
   \<and> map (\<lambda>p. r_status (snd p))
         (requests (snd (add_driver 0 0 (run [Add_rider 0 5 0 10] new_engine)))) = [assigned]"
proof -
  have q: "request_queue (run [Add_rider 0 5 0 10] new_engine) \<noteq> []" by code_simp
  have v: "is_valid_position 0 0" by (simp add: is_valid_position_iff)
  have w: "map (\<lambda>p. r_status (snd p)) (requests (run [Add_rider 0 5 0 10] new_engine))
             = [waiting]" by code_simp
  have a: "map (\<lambda>p. r_status (snd p))
         (requests (snd (add_driver 0 0 (run [Add_rider 0 5 0 10] new_engine)))) = [assigned]"
    by code_simp
  show ?thesis using add_driver_raises_on_waiting_queue [OF q v] q v w a by simp
qed

subsection \<open>The request registry under the engine's steps\<close>

lemma store_request_keys [simp]: "map fst (store_request req reqs) = map fst reqs"
  by (induction reqs) (simp_all add: store_request_def)

lemma fold_store_request_keys [simp]:
  "map fst (fold store_request ps reqs) = map fst reqs"
  by (induction ps arbitrary: reqs) simp_all

lemma engine_process_queue_keys [simp]:
  "map fst (requests (snd (engine_process_queue s))) = map fst (requests s)"
  by (simp add: engine_process_queue_unfold assign_processed_requests split: list.splits)

lemma rider_service_remove_rider_requests [simp]:
  "requests (snd (rider_service_remove_rider rid s)) = requests s"
  by (simp add: rider_service_remove_rider_def)

lemma rider_service_remove_rider_drivers [simp]:
  "drivers (snd (rider_service_remove_rider rid s)) = drivers s"
  by (simp add: rider_service_remove_rider_def)

lemma rider_service_remove_rider_queue [simp]:
  "request_queue (snd (rider_service_remove_rider rid s)) = request_queue s"
  by (simp add: rider_service_remove_rider_def)

lemma remove_rider_requests [simp]:
  "requests (snd (remove_rider rid s)) = remove_requests_for_rider rid (requests s)"
  by (simp add: remove_rider_def Let_def)

lemma remove_rider_drivers [simp]:
  "drivers (snd (remove_rider rid s)) = drivers s"
  by (simp add: remove_rider_def Let_def)

lemma remove_stored_request:
  "r_id req \<notin> fst ` set (remove_requests_for_rider (rider_id req) (store_request req reqs))"
  by (induction reqs) (auto simp: remove_requests_for_rider_def store_request_def)

lemma engine_complete_trip_unfold:
  "engine_complete_trip i req s =
     engine_process_queue
       (snd (remove_rider (rider_id req)
          (s\<lparr>requests := store_request (complete_request req) (requests s),
             drivers := (drivers s)[i := complete_trip (drivers s ! i)]\<rparr>)))"
  by (simp add: engine_complete_trip_def Let_def case_prod_beta complete_request_def)

lemma engine_complete_trip_drops_request:
  "r_id req \<notin> fst ` set (requests (snd (engine_complete_trip i req s)))"
proof -
  have "r_id (complete_request req) \<notin> fst ` set (remove_requests_for_rider
          (rider_id (complete_request req)) (store_request (complete_request req) (requests s)))"
    by (rule remove_stored_request)
  then have "r_id req \<notin> set (map fst (remove_requests_for_rider
          (rider_id req) (store_request (complete_request req) (requests s))))"
    by (simp add: complete_request_def)
  then have "r_id req \<notin> set (map fst (requests (snd (engine_complete_trip i req s))))"
    by (simp only: engine_complete_trip_unfold engine_process_queue_keys remove_rider_requests)
       simp
  then show ?thesis by simp
qed

text \<open>
  Claim C1 says that a completed request stays in the registry with status completed
  and is counted in \<open>completedRides\<close>. In the code every trip completion deletes the
  request: \<open>engine_complete_trip\<close> removes the rider, and \<open>remove_rider\<close> deletes all
  requests of that rider, the one just completed among them. In the scenario (one
  driver, one rider, two ticks) the trip is completed, the registry is empty and
  \<open>completedRides\<close> is 0.
\<close>

theorem trip_completion_deletes_request:
  "r_id req \<notin> fst ` set (requests (snd (engine_complete_trip i req s)))
   \<and> get_request (Some (r_id req)) (snd (engine_complete_trip i req s)) = None
   \<and> map totalTrips
        (drivers (run [Add_driver 0 0, Add_rider 0 1 0 2, Advance_tick, Advance_tick] new_engine))
       = [1]
   \<and> requests (run [Add_driver 0 0, Add_rider 0 1 0 2, Advance_tick, Advance_tick] new_engine)
       = []
   \<and> completedRides
        (get_stats (run [Add_driver 0 0, Add_rider 0 1 0 2, Advance_tick, Advance_tick] new_engine))
       = 0"
proof -
  have a: "r_id req \<notin> fst ` set (requests (snd (engine_complete_trip i req s)))"
    by (rule engine_complete_trip_drops_request)
  then have b: "get_request (Some (r_id req)) (snd (engine_complete_trip i req s)) = None"
    by (simp add: get_request_def map_of_eq_None_iff)
  have c: "map totalTrips
        (drivers (run [Add_driver 0 0, Add_rider 0 1 0 2, Advance_tick, Advance_tick] new_engine))
       = [1]" by code_simp
  have d: "requests (run [Add_driver 0 0, Add_rider 0 1 0 2, Advance_tick, Advance_tick] new_engine)
       = []" by code_simp
  have e: "completedRides
        (get_stats (run [Add_driver 0 0, Add_rider 0 1 0 2, Advance_tick, Advance_tick] new_engine))
       = 0" by code_simp
  show ?thesis using a b c d e by blast
qed

subsection \<open>Removing a driver\<close>

lemma remove_driver_requests [simp]:
  "requests (snd (remove_driver driver_id s)) = requests s"
  by (simp add: remove_driver_def case_prod_beta)

lemma reachable_run: "reachable (run ops new_engine)"
  by (auto simp: reachable_def)

text \<open>
  Claim C4 states the invariant: a request is assigned iff its \<open>assigned_driver_id\<close> is
  set iff some driver carries its id. \<open>remove_driver\<close> breaks it: it only deletes the
  driver and never touches the request registry, although its docstring says the
  associated request is removed. After adding a driver, adding a rider (assigned to
  that driver) and removing the driver, the reachable engine holds a request that is
  assigned to driver 1 while no driver exists.
\<close>

theorem remove_driver_orphans_request:
  "requests (snd (remove_driver driver_id s)) = requests s
   \<and> reachable (run [Add_driver 0 0, Add_rider 0 5 0 10, Remove_driver 1] new_engine)
   \<and> drivers (run [Add_driver 0 0, Add_rider 0 5 0 10, Remove_driver 1] new_engine) = []
   \<and> requests (run [Add_driver 0 0, Add_rider 0 5 0 10, Remove_driver 1] new_engine)
       = [(1, \<lparr>r_id = 1, rider_id = 1, r_status = assigned, pickup_x = 0, pickup_y = 5,
                dropoff_x = 0, dropoff_y = 10, assigned_driver_id = Some 1\<rparr>)]"
proof -
  have a: "drivers (run [Add_driver 0 0, Add_rider 0 5 0 10, Remove_driver 1] new_engine) = []"
    by code_simp
  have b: "requests (run [Add_driver 0 0, Add_rider 0 5 0 10, Remove_driver 1] new_engine)
       = [(1, \<lparr>r_id = 1, rider_id = 1, r_status = assigned, pickup_x = 0, pickup_y = 5,
                dropoff_x = 0, dropoff_y = 10, assigned_driver_id = Some 1\<rparr>)]"
    by code_simp
  show ?thesis using a b by (simp add: reachable_run)
qed

subsection \<open>One drain never books a driver twice\<close>

lemma queue_assign_fst:
  "fst (queue_assign_request_to_driver req drv) =
     req\<lparr>r_status := assigned, assigned_driver_id := Some (d_id drv)\<rparr>"
  by (simp add: queue_assign_request_to_driver_def)

lemma queue_assign_snd_id [simp]:
  "d_id (snd (queue_assign_request_to_driver req drv)) = d_id drv"
  by (simp add: queue_assign_request_to_driver_def)

lemma d_id_list_update_same:
  "d_id v = d_id (ds ! b) \<Longrightarrow> d_id (ds[b := v] ! i) = d_id (ds ! i)"
  by (cases "b < length ds") (simp_all add: nth_list_update list_update_beyond)

lemma no_double_booking_step:
  assumes inv: "no_double_booking ds0 pool remaining ds acc"
    and best: "best \<in> set remaining"
  shows "no_double_booking ds0 pool
          (filter (\<lambda>d. d_id (ds ! d) \<noteq> d_id (ds ! best)) remaining)
          (ds[best := snd (queue_assign_request_to_driver req (ds ! best))])
          (acc @ [fst (queue_assign_request_to_driver req (ds ! best))])"
proof -
  from inv have ids: "\<And>i. d_id (ds ! i) = d_id (ds0 ! i)"
    and sub: "set remaining \<subseteq> set pool"
    and dist: "distinct (map assigned_driver_id acc)"
    and mem: "\<forall>p\<in>set acc. r_status p = assigned
            \<and> (\<exists>i\<in>set pool. assigned_driver_id p = Some (d_id (ds0 ! i)))"
    and free: "\<forall>p\<in>set acc. \<forall>d\<in>set remaining. assigned_driver_id p \<noteq> Some (d_id (ds0 ! d))"
    by (simp_all add: no_double_booking_def)
  let ?req' = "fst (queue_assign_request_to_driver req (ds ! best))"
  let ?ds' = "ds[best := snd (queue_assign_request_to_driver req (ds ! best))]"
  let ?rem' = "filter (\<lambda>d. d_id (ds ! d) \<noteq> d_id (ds ! best)) remaining"
  have a: "assigned_driver_id ?req' = Some (d_id (ds0 ! best))"
    by (simp add: queue_assign_fst ids)
  have st: "r_status ?req' = assigned" by (simp add: queue_assign_fst)
  have 1: "\<forall>i. d_id (?ds' ! i) = d_id (ds0 ! i)"
    using ids by (simp add: d_id_list_update_same)
  have 2: "set ?rem' \<subseteq> set pool" using sub by auto
  have "Some (d_id (ds0 ! best)) \<notin> set (map assigned_driver_id acc)"
    using free best by force
  then have 3: "distinct (map assigned_driver_id (acc @ [?req']))"
    using dist a by simp
  have 4: "\<forall>p\<in>set (acc @ [?req']). r_status p = assigned
            \<and> (\<exists>i\<in>set pool. assigned_driver_id p = Some (d_id (ds0 ! i)))"
    using mem a st best sub by auto
  have 5: "\<forall>p\<in>set (acc @ [?req']). \<forall>d\<in>set ?rem'.
             assigned_driver_id p \<noteq> Some (d_id (ds0 ! d))"
    using free a ids by auto
  show ?thesis
    unfolding no_double_booking_def using 1 2 3 4 5 by blast
qed

lemma process_loop_no_double_booking:
  "\<exists>remaining'. no_double_booking ds pool remaining'
      (fst (process_loop queue pool ds [])) (snd (process_loop queue pool ds []))"
proof (rule process_loop_invariant)
  show "no_double_booking ds pool pool ds []"
    by (simp add: no_double_booking_def)
next
  fix req remaining ds' acc best
  assume "no_double_booking ds pool remaining ds' acc" "best \<in> set remaining"
  then show "no_double_booking ds pool
          (filter (\<lambda>d. d_id (ds' ! d) \<noteq> d_id (ds' ! best)) remaining)
          (ds'[best := snd (queue_assign_request_to_driver req (ds' ! best))])
          (acc @ [fst (queue_assign_request_to_driver req (ds' ! best))])"
    by (rule no_double_booking_step)
qed

lemma process_queue_processed:
  "snd (snd (process_queue ds queue pool)) =
     (if pool = [] \<or> queue = [] then [] else snd (process_loop queue pool ds []))"
  by (simp add: process_queue_def case_prod_beta)

text \<open>
  Claim C7. For every queue and every supplied pool of drivers, the requests that one
  call of \<open>process_queue\<close> returns as processed carry pairwise distinct drivers: no
  driver is assigned to two requests in one drain. Each processed request is assigned
  and its driver is one of the pool.
\<close>

theorem process_queue_no_double_booking:
  "distinct (map assigned_driver_id (snd (snd (process_queue ds queue pool))))
   \<and> (\<forall>p\<in>set (snd (snd (process_queue ds queue pool))).
         r_status p = assigned
         \<and> (\<exists>i\<in>set pool. assigned_driver_id p = Some (d_id (ds ! i))))"
proof (cases "pool = [] \<or> queue = []")
  case True
  then show ?thesis by (simp add: process_queue_processed)
next
  case False
  from process_loop_no_double_booking [of ds pool queue]
  show ?thesis using False
    by (auto simp: process_queue_processed no_double_booking_def)
qed

theorem process_queue_no_double_booking_witness:
  "map assigned_driver_id
     (snd (snd (process_queue [mk_driver 1 0 0 0 0, mk_driver 2 5 5 0 0]
                  [mk_request 1 1 1 1 9 9, mk_request 2 2 1 2 9 9, mk_request 3 3 0 0 1 1]
                  [0, 1])))
     = [Some 1, Some 2]
   \<and> distinct [Some (1::nat), Some 2]"
proof -
  have e: "map assigned_driver_id
     (snd (snd (process_queue [mk_driver 1 0 0 0 0, mk_driver 2 5 5 0 0]
                  [mk_request 1 1 1 1 9 9, mk_request 2 2 1 2 9 9, mk_request 3 3 0 0 1 1]
                  [0, 1])))
     = [Some 1, Some 2]" by code_simp
  from process_queue_no_double_booking
    [of "[mk_driver 1 0 0 0 0, mk_driver 2 5 5 0 0]"
        "[mk_request 1 1 1 1 9 9, mk_request 2 2 1 2 9 9, mk_request 3 3 0 0 1 1]" "[0, 1]"]
  show ?thesis using e by simp
qed

subsection \<open>The grid invariant\<close>

lemma list_all_update:
  "list_all P xs \<Longrightarrow> (i < length xs \<Longrightarrow> P v) \<Longrightarrow> list_all P (xs[i := v])"
  by (cases "i < length xs")
     (auto simp: list_all_iff list_update_beyond dest!: set_update_subset_insert [THEN subsetD])

lemma list_all_nth: "list_all P xs \<Longrightarrow> i < length xs \<Longrightarrow> P (xs ! i)"
  by (simp add: list_all_iff)

lemma driver_ok_move: "driver_ok d \<Longrightarrow> driver_ok (move_driver_one_step d)"
  by (auto simp: driver_ok_def move_driver_one_step_def is_valid_position_iff Let_def
      split: option.splits)

lemma driver_ok_complete_trip: "driver_ok d \<Longrightarrow> driver_ok (complete_trip d)"
  by (simp add: driver_ok_def complete_trip_def)

lemma driver_ok_increment: "driver_ok d \<Longrightarrow> driver_ok (increment_idle_ticks d)"
  by (simp add: driver_ok_def increment_idle_ticks_def)

lemma driver_ok_queue_assign:
  "driver_ok d \<Longrightarrow> request_ok r \<Longrightarrow> driver_ok (snd (queue_assign_request_to_driver r d))"
  by (simp add: driver_ok_def request_ok_def queue_assign_request_to_driver_def)

lemma request_ok_queue_assign:
  "request_ok r \<Longrightarrow> request_ok (fst (queue_assign_request_to_driver r d))"
  by (simp add: request_ok_def queue_assign_request_to_driver_def)

lemma process_loop_invariant_simple:
  assumes init: "Q ds acc"
    and step: "\<And>req ds acc best. Q ds acc \<Longrightarrow> req \<in> set queue \<Longrightarrow>
        Q (ds[best := snd (queue_assign_request_to_driver req (ds ! best))])
          (acc @ [fst (queue_assign_request_to_driver req (ds ! best))])"
  shows "Q (fst (process_loop queue remaining ds acc)) (snd (process_loop queue remaining ds acc))"
proof -
  have "\<exists>remaining'::nat list. Q (fst (process_loop queue remaining ds acc))
                                   (snd (process_loop queue remaining ds acc))"
    by (rule process_loop_invariant [where P = "\<lambda>r. Q"]) (use init step in auto)
  then show ?thesis by simp
qed

lemma process_loop_grid:
  assumes "list_all driver_ok ds" "list_all request_ok queue"
  shows "list_all driver_ok (fst (process_loop queue pool ds []))
       \<and> list_all request_ok (snd (process_loop queue pool ds []))"
proof (rule process_loop_invariant_simple
    [where Q = "\<lambda>d a. list_all driver_ok d \<and> list_all request_ok a"])
  show "list_all driver_ok ds \<and> list_all request_ok []" using assms(1) by simp
next
  fix req ds' acc best
  assume i: "list_all driver_ok ds' \<and> list_all request_ok acc" and r: "req \<in> set queue"
  from r assms(2) have rk: "request_ok req" by (simp add: list_all_iff)
  have "list_all driver_ok (ds'[best := snd (queue_assign_request_to_driver req (ds' ! best))])"
    using i rk by (intro list_all_update) (auto intro: driver_ok_queue_assign list_all_nth)
  moreover have "list_all request_ok (acc @ [fst (queue_assign_request_to_driver req (ds' ! best))])"
    using i rk by (simp add: request_ok_queue_assign)
  ultimately show "list_all driver_ok
         (ds'[best := snd (queue_assign_request_to_driver req (ds' ! best))])
       \<and> list_all request_ok (acc @ [fst (queue_assign_request_to_driver req (ds' ! best))])"
    by simp
qed

lemma set_remove_from_queue: "set (remove_from_queue req q) \<subseteq> set q"
  by (induction q) auto

lemma set_fold_remove_from_queue: "set (fold remove_from_queue ps q) \<subseteq> set q"
proof (induction ps arbitrary: q)
  case Nil
  then show ?case by simp
next
  case (Cons p ps)
  have "set (fold remove_from_queue ps (remove_from_queue p q)) \<subseteq> set (remove_from_queue p q)"
    by (rule Cons.IH)
  also have "\<dots> \<subseteq> set q" by (rule set_remove_from_queue)
  finally show ?case by simp
qed

lemma process_queue_grid:
  assumes "list_all driver_ok ds" "list_all request_ok queue"
  shows "list_all driver_ok (fst (process_queue ds queue pool))
       \<and> list_all request_ok (fst (snd (process_queue ds queue pool)))
       \<and> list_all request_ok (snd (snd (process_queue ds queue pool)))"
proof (cases "pool = [] \<or> queue = []")
  case True
  then show ?thesis using assms by (auto simp: process_queue_def)
next
  case False
  have "list_all request_ok
          (fold remove_from_queue (snd (process_loop queue pool ds [])) queue)"
    using assms(2) set_fold_remove_from_queue [of "snd (process_loop queue pool ds [])" queue]
    by (auto simp: list_all_iff)
  then show ?thesis
    using False process_loop_grid [OF assms, of pool]
    by (simp add: process_queue_def case_prod_beta)
qed

lemma store_request_grid:
  "list_all (\<lambda>p. request_ok (snd p)) reqs \<Longrightarrow> request_ok r \<Longrightarrow>
     list_all (\<lambda>p. request_ok (snd p)) (store_request r reqs)"
  by (induction reqs) (simp_all add: store_request_def)

lemma fold_store_request_grid:
  "list_all (\<lambda>p. request_ok (snd p)) reqs \<Longrightarrow> list_all request_ok ps \<Longrightarrow>
     list_all (\<lambda>p. request_ok (snd p)) (fold store_request ps reqs)"
  by (induction ps arbitrary: reqs) (simp_all add: store_request_grid)

lemma engine_process_queue_requests:
  "requests (snd (engine_process_queue s)) =
     (case snd (snd (process_queue (drivers s) (request_queue s)
                       (get_available_drivers (drivers s)))) of
        [] \<Rightarrow> requests s
      | req # rest \<Rightarrow>
          store_request (req\<lparr>r_status := assigned\<rparr>)
            (fold store_request (req # rest) (requests s)))"
  by (simp add: engine_process_queue_unfold assign_processed_requests split: list.splits
      del: assign_processed.simps)

lemma engine_process_queue_drivers:
  "drivers (snd (engine_process_queue s)) =
     fst (process_queue (drivers s) (request_queue s) (get_available_drivers (drivers s)))"
  by (simp add: engine_process_queue_unfold)

lemma engine_process_queue_queue:
  "request_queue (snd (engine_process_queue s)) =
     fst (snd (process_queue (drivers s) (request_queue s) (get_available_drivers (drivers s))))"
  by (simp add: engine_process_queue_unfold)

lemma engine_process_queue_riders [simp]:
  "riders (snd (engine_process_queue s)) = riders s"
  by (simp add: engine_process_queue_unfold)

lemma engine_process_queue_grid:
  assumes "grid_invariant s"
  shows "grid_invariant (snd (engine_process_queue s))"
proof -
  let ?pq = "process_queue (drivers s) (request_queue s) (get_available_drivers (drivers s))"
  from assms have d: "list_all driver_ok (drivers s)"
    and q: "list_all request_ok (request_queue s)"
    and r: "list_all (\<lambda>p. request_ok (snd p)) (requests s)"
    and rd: "list_all (\<lambda>p. rider_ok (snd p)) (riders s)"
    by (simp_all add: grid_invariant_def)
  from process_queue_grid [OF d q, of "get_available_drivers (drivers s)"]
  have d': "list_all driver_ok (fst ?pq)" and q': "list_all request_ok (fst (snd ?pq))"
    and p': "list_all request_ok (snd (snd ?pq))" by simp_all
  have r2: "list_all (\<lambda>p. request_ok (snd p)) (requests (snd (engine_process_queue s)))"
  proof (cases "snd (snd ?pq)")
    case Nil
    then show ?thesis using r by (simp add: engine_process_queue_requests)
  next
    case (Cons req rest)
    then have "request_ok req" using p' by simp
    then have k: "request_ok (req\<lparr>r_status := assigned\<rparr>)" by (simp add: request_ok_def)
    have "list_all (\<lambda>p. request_ok (snd p)) (fold store_request (req # rest) (requests s))"
      using r p' Cons by (intro fold_store_request_grid) simp_all
    then have "list_all (\<lambda>p. request_ok (snd p))
        (store_request (req\<lparr>r_status := assigned\<rparr>)
           (fold store_request (req # rest) (requests s)))"
      using k by (rule store_request_grid)
    then show ?thesis using Cons by (simp add: engine_process_queue_requests)
  qed
  show ?thesis
    using r2 d' q' rd
    by (simp add: grid_invariant_def engine_process_queue_drivers engine_process_queue_queue)
qed

lemma grid_invariant_new_engine: "grid_invariant new_engine"
  by (simp add: grid_invariant_def new_engine_def)

lemma reset_grid: "grid_invariant (reset s)"
  by (simp add: grid_invariant_def reset_def)

lemma driver_ok_mk_driver: "is_valid_position x y \<Longrightarrow> driver_ok (mk_driver n x y t i)"
  by (simp add: driver_ok_def mk_driver_def)

lemma add_driver_grid:
  assumes "grid_invariant s"
  shows "grid_invariant (snd (add_driver x y s))"
proof (cases "is_valid_position x y")
  case False
  then show ?thesis using assms by (simp add: add_driver_invalid)
next
  case True
  let ?s1 = "s\<lparr>driver_counter := driver_counter s + 1,
               drivers := drivers s @ [mk_driver (driver_counter s + 1) x y 0 0]\<rparr>"
  have "grid_invariant ?s1"
    using assms True by (simp add: grid_invariant_def driver_ok_mk_driver)
  then have "grid_invariant (snd (engine_process_queue ?s1))"
    by (rule engine_process_queue_grid)
  then show ?thesis by (simp add: add_driver_valid [OF True] Let_def)
qed

lemma set_driver_service_remove_driver:
  "set (snd (driver_service_remove_driver driver_id ds)) \<subseteq> set ds"
  by (induction ds) (auto simp: case_prod_beta)

lemma remove_driver_grid:
  assumes "grid_invariant s"
  shows "grid_invariant (snd (remove_driver driver_id s))"
  using assms set_driver_service_remove_driver [of driver_id "drivers s"]
  by (auto simp: grid_invariant_def remove_driver_def case_prod_beta list_all_iff)

lemma list_all_dict_set:
  "list_all P ps \<Longrightarrow> P (k, v) \<Longrightarrow> list_all P (dict_set k v ps)"
  by (induction ps) simp_all

lemma set_remove_riders_requests:
  "set (fold (\<lambda>req q. if rider_id req = rid then remove_from_queue req q else q) xs q)
     \<subseteq> set q"
proof (induction xs arbitrary: q)
  case Nil
  then show ?case by simp
next
  case (Cons x xs)
  show ?case
  proof (cases "rider_id x = rid")
    case True
    have "set (fold (\<lambda>req q. if rider_id req = rid then remove_from_queue req q else q) xs
                 (remove_from_queue x q)) \<subseteq> set (remove_from_queue x q)"
      by (rule Cons.IH)
    also have "\<dots> \<subseteq> set q" by (rule set_remove_from_queue)
    finally show ?thesis using True by simp
  next
    case False
    then show ?thesis using Cons.IH [of q] by simp
  qed
qed

lemma remove_rider_queue:
  "request_queue (snd (remove_rider rid s)) =
     fold (\<lambda>req q. if rider_id req = rid then remove_from_queue req q else q)
       (request_queue s) (request_queue s)"
  by (simp add: remove_rider_def Let_def)

lemma remove_rider_riders:
  "riders (snd (remove_rider rid s)) = filter (\<lambda>p. fst p \<noteq> rid) (riders s)"
proof -
  have "rid \<notin> fst ` set (riders s) \<Longrightarrow> filter (\<lambda>p. fst p \<noteq> rid) (riders s) = riders s"
    by (induction "riders s") (auto simp: filter_id_conv)
  then show ?thesis
    by (auto simp: remove_rider_def Let_def rider_service_remove_rider_def)
qed

lemma remove_rider_grid:
  assumes "grid_invariant s"
  shows "grid_invariant (snd (remove_rider rid s))"
  using assms set_remove_riders_requests [of rid "request_queue s" "request_queue s"]
  by (auto simp: grid_invariant_def remove_rider_queue remove_rider_riders
      remove_requests_for_rider_def list_all_iff)

lemma try_assign_request_unfold:
  "try_assign_request req s =
     (if get_available_drivers (drivers s) = [] then (False, req, s)
      else case find_best_driver (drivers s) (get_available_drivers (drivers s)) req of
             Inl e \<Rightarrow> (False, req, s)
           | Inr best \<Rightarrow>
               (True, req\<lparr>r_status := assigned,
                          assigned_driver_id := Some (d_id (drivers s ! best))\<rparr>,
                s\<lparr>requests :=
                     store_request (req\<lparr>r_status := assigned,
                                          assigned_driver_id := Some (d_id (drivers s ! best))\<rparr>)
                       (requests s),
                  drivers := (drivers s)[best :=
                     (drivers s ! best)\<lparr>d_status := on_trip, assignedRequestId := Some (r_id req),
                        tripPhase := Some to_pickup, targetX := Some (pickup_x req),
                        targetY := Some (pickup_y req), idleTicks := 0\<rparr>]\<rparr>))"
  by (simp add: try_assign_request_def assign_request_to_driver_def assign_request_def Let_def
      split: sum.splits)

lemma try_assign_request_grid:
  assumes "grid_invariant s" "request_ok req"
  shows "grid_invariant (snd (snd (try_assign_request req s)))
       \<and> request_ok (fst (snd (try_assign_request req s)))"
proof -
  have k: "request_ok (req\<lparr>r_status := assigned, assigned_driver_id := v\<rparr>)" for v
    using assms(2) by (simp add: request_ok_def)
  have d: "list_all driver_ok ((drivers s)[best :=
                     (drivers s ! best)\<lparr>d_status := on_trip, assignedRequestId := Some (r_id req),
                        tripPhase := Some to_pickup, targetX := Some (pickup_x req),
                        targetY := Some (pickup_y req), idleTicks := 0\<rparr>])" for best
  proof (rule list_all_update)
    show "list_all driver_ok (drivers s)" using assms(1) by (simp add: grid_invariant_def)
  next
    assume "best < length (drivers s)"
    then have "driver_ok (drivers s ! best)"
      using assms(1) by (simp add: grid_invariant_def list_all_nth)
    then show "driver_ok ((drivers s ! best)\<lparr>d_status := on_trip,
                        assignedRequestId := Some (r_id req),
                        tripPhase := Some to_pickup, targetX := Some (pickup_x req),
                        targetY := Some (pickup_y req), idleTicks := 0\<rparr>)"
      using assms(2) by (simp add: driver_ok_def request_ok_def)
  qed
  show ?thesis
    using assms k d
    by (auto simp: try_assign_request_unfold grid_invariant_def store_request_grid
        split: sum.splits)
qed

lemma enqueue_grid:
  "grid_invariant s \<Longrightarrow> request_ok req \<Longrightarrow>
     grid_invariant (s\<lparr>request_queue := request_queue s @ [req]\<rparr>)"
  by (simp add: grid_invariant_def)

lemma create_and_dispatch_grid:
  assumes "grid_invariant s" "rider_ok rdr"
  shows "grid_invariant
     (let (req, s2) = request_service_create_request rdr s;
          (ok, req', s3) = try_assign_request req s2
      in if \<not> ok then s3\<lparr>request_queue := request_queue s3 @ [req']\<rparr> else s3)"
proof -
  let ?req = "fst (request_service_create_request rdr s)"
  let ?s2 = "snd (request_service_create_request rdr s)"
  have rk: "request_ok ?req"
    using assms(2)
    by (simp add: request_service_create_request_def Let_def request_ok_def rider_ok_def)
  have "list_all (\<lambda>p. request_ok (snd p)) (requests ?s2)"
    using assms(1) rk
    by (simp add: request_service_create_request_def Let_def grid_invariant_def
        list_all_dict_set request_ok_def rider_ok_def)
  then have g2: "grid_invariant ?s2"
    using assms(1) by (simp add: grid_invariant_def request_service_create_request_def Let_def)
  from try_assign_request_grid [OF g2 rk]
  show ?thesis by (simp add: case_prod_beta Let_def enqueue_grid)
qed

lemma add_rider_grid:
  assumes "grid_invariant s"
  shows "grid_invariant (snd (add_rider px py dx dy s))"
proof (cases "is_valid_position px py \<and> is_valid_position dx dy")
  case False
  then show ?thesis using assms by (simp add: add_rider_invalid)
next
  case True
  let ?rdr = "\<lparr>rider_ident = rider_counter s + 1, rider_pickup_x = px, rider_pickup_y = py,
                    rider_dropoff_x = dx, rider_dropoff_y = dy\<rparr>"
  let ?s1 = "s\<lparr>rider_counter := rider_counter s + 1,
               riders := dict_set (rider_counter s + 1) ?rdr (riders s)\<rparr>"
  have rk: "rider_ok ?rdr" using True by (simp add: rider_ok_def)
  have g1: "grid_invariant ?s1"
    using assms rk by (simp add: grid_invariant_def list_all_dict_set)
  have "snd (add_rider px py dx dy s) =
     (let (req, s2) = request_service_create_request ?rdr ?s1;
          (ok, req', s3) = try_assign_request req s2
      in if \<not> ok then s3\<lparr>request_queue := request_queue s3 @ [req']\<rparr> else s3)"
    using True
    by (simp add: add_rider_def rider_service_add_rider_def Let_def case_prod_beta)
  then show ?thesis using create_and_dispatch_grid [OF g1 rk] by simp
qed

lemma create_request_grid:
  assumes "grid_invariant s"
  shows "grid_invariant (snd (create_request rid s))"
proof (cases "map_of (riders s) rid")
  case None
  then show ?thesis using assms by (simp add: create_request_def)
next
  case (Some rdr)
  then have "(rid, rdr) \<in> set (riders s)" by (rule map_of_SomeD)
  then have rk: "rider_ok rdr" using assms by (auto simp: grid_invariant_def list_all_iff)
  have "snd (create_request rid s) =
     (let (req, s2) = request_service_create_request rdr s;
          (ok, req', s3) = try_assign_request req s2
      in if \<not> ok then s3\<lparr>request_queue := request_queue s3 @ [req']\<rparr> else s3)"
    using Some by (simp add: create_request_def Let_def case_prod_beta)
  then show ?thesis using create_and_dispatch_grid [OF assms rk] by simp
qed

lemma engine_complete_trip_grid:
  assumes "grid_invariant s" "request_ok req"
  shows "grid_invariant (snd (engine_complete_trip i req s))"
proof -
  let ?s2 = "s\<lparr>requests := store_request (complete_request req) (requests s),
               drivers := (drivers s)[i := complete_trip (drivers s ! i)]\<rparr>"
  have "request_ok (complete_request req)"
    using assms(2) by (simp add: request_ok_def complete_request_def)
  then have r: "list_all (\<lambda>p. request_ok (snd p))
                  (store_request (complete_request req) (requests s))"
    using assms(1) by (simp add: grid_invariant_def store_request_grid)
  have d: "list_all driver_ok ((drivers s)[i := complete_trip (drivers s ! i)])"
    using assms(1)
    by (intro list_all_update)
       (auto simp: grid_invariant_def intro: driver_ok_complete_trip list_all_nth)
  have "grid_invariant ?s2"
    using assms(1) r d by (simp add: grid_invariant_def)
  then have "grid_invariant (snd (remove_rider (rider_id req) ?s2))"
    by (rule remove_rider_grid)
  then show ?thesis
    by (simp only: engine_complete_trip_unfold engine_process_queue_grid)
qed

lemma get_request_grid:
  assumes "grid_invariant s" "get_request k s = Some req"
  shows "request_ok req"
proof -
  from assms(2) obtain n where "map_of (requests s) n = Some req"
    by (auto simp: get_request_def split: option.splits)
  then have "(n, req) \<in> set (requests s)" by (rule map_of_SomeD)
  then show ?thesis using assms(1) by (auto simp: grid_invariant_def list_all_iff)
qed

lemma engine_move_driver_one_step_grid:
  assumes "grid_invariant s"
  shows "grid_invariant (snd (engine_move_driver_one_step i s))"
proof -
  let ?drv = "move_driver_one_step (drivers s ! i)"
  let ?s1 = "s\<lparr>drivers := (drivers s)[i := ?drv]\<rparr>"
  have d1: "list_all driver_ok ((drivers s)[i := ?drv])"
    using assms
    by (intro list_all_update) (auto simp: grid_invariant_def intro: driver_ok_move list_all_nth)
  then have g1: "grid_invariant ?s1" using assms by (simp add: grid_invariant_def)
  show ?thesis
  proof (cases "targetX ?drv \<noteq> None \<and> targetY ?drv \<noteq> None
            \<and> Some (d_x ?drv) = targetX ?drv \<and> Some (d_y ?drv) = targetY ?drv")
    case False
    then show ?thesis using g1 by (auto simp: engine_move_driver_one_step_def Let_def)
  next
    case True
    show ?thesis
    proof (cases "get_request (assignedRequestId ?drv) ?s1")
      case None
      then show ?thesis using g1 True by (simp add: engine_move_driver_one_step_def Let_def)
    next
      case (Some req)
      from get_request_grid [OF g1 Some] have rk: "request_ok req" .
      show ?thesis
      proof (cases "tripPhase ?drv")
        case None
        then show ?thesis using g1 True Some
          by (simp add: engine_move_driver_one_step_def Let_def)
      next
        case (Some ph)
        show ?thesis
        proof (cases ph)
          case to_pickup
          have "list_all driver_ok
                  ((drivers s)[i := ?drv\<lparr>tripPhase := Some to_dropoff,
                      targetX := Some (dropoff_x req), targetY := Some (dropoff_y req)\<rparr>])"
          proof (rule list_all_update)
            show "list_all driver_ok (drivers s)" using assms by (simp add: grid_invariant_def)
          next
            assume "i < length (drivers s)"
            then have "driver_ok ?drv"
              using assms by (auto simp: grid_invariant_def intro: driver_ok_move list_all_nth)
            then show "driver_ok (?drv\<lparr>tripPhase := Some to_dropoff,
                      targetX := Some (dropoff_x req), targetY := Some (dropoff_y req)\<rparr>)"
              using rk by (simp add: driver_ok_def request_ok_def)
          qed
          then have "grid_invariant
                 (s\<lparr>drivers := (drivers s)[i := ?drv\<lparr>tripPhase := Some to_dropoff,
                      targetX := Some (dropoff_x req), targetY := Some (dropoff_y req)\<rparr>]\<rparr>)"
            using assms by (simp add: grid_invariant_def)
          then show ?thesis using True \<open>get_request (assignedRequestId ?drv) ?s1 = Some req\<close>
              Some to_pickup
            by (simp add: engine_move_driver_one_step_def Let_def)
        next
          case to_dropoff
          have "grid_invariant (snd (engine_complete_trip i req ?s1))"
            using g1 rk by (rule engine_complete_trip_grid)
          then show ?thesis using True \<open>get_request (assignedRequestId ?drv) ?s1 = Some req\<close>
              Some to_dropoff
            by (simp add: engine_move_driver_one_step_def Let_def)
        qed
      qed
    qed
  qed
qed

lemma move_busy_drivers_grid:
  "grid_invariant s \<Longrightarrow> grid_invariant (snd (move_busy_drivers js s))"
proof (induction js arbitrary: s)
  case Nil
  then show ?case by simp
next
  case (Cons j js)
  have g: "grid_invariant (snd (engine_move_driver_one_step j s))"
    using Cons.prems by (rule engine_move_driver_one_step_grid)
  show ?case
  proof (cases "engine_move_driver_one_step j s")
    case (Pair r s')
    then show ?thesis using g Cons.IH [of s'] by (cases r) simp_all
  qed
qed

lemma fold_update_grid:
  assumes "list_all P ds" "\<And>d. P d \<Longrightarrow> P (f d)"
  shows "list_all P (fold (\<lambda>i acc. acc[i := f (acc ! i)]) js ds)"
  using assms(1)
proof (induction js arbitrary: ds)
  case Nil
  then show ?case by simp
next
  case (Cons j js)
  have "list_all P (ds[j := f (ds ! j)])"
    using Cons.prems by (intro list_all_update) (auto intro: assms(2) list_all_nth)
  then show ?case using Cons.IH by simp
qed

lemma increment_available_grid:
  "list_all driver_ok ds \<Longrightarrow> list_all driver_ok (increment_available ds)"
  unfolding increment_available_def by (rule fold_update_grid) (simp_all add: driver_ok_increment)

lemma advance_tick_grid:
  assumes "grid_invariant s"
  shows "grid_invariant (snd (advance_tick s))"
proof -
  let ?m = "move_busy_drivers (get_busy_drivers (drivers s)) s"
  have g1: "grid_invariant (snd ?m)" using assms by (rule move_busy_drivers_grid)
  then have "grid_invariant (snd ?m\<lparr>drivers := increment_available (drivers (snd ?m))\<rparr>)"
    by (simp add: grid_invariant_def increment_available_grid)
  then have "grid_invariant (snd (engine_process_queue
                (snd ?m\<lparr>drivers := increment_available (drivers (snd ?m))\<rparr>)))"
    by (rule engine_process_queue_grid)
  then show ?thesis using g1
    by (cases ?m; cases "fst ?m") (simp_all add: advance_tick_def)
qed

lemma apply_operation_grid:
  "grid_invariant s \<Longrightarrow> grid_invariant (apply_operation operation s)"
  by (cases operation)
     (simp_all add: add_driver_grid remove_driver_grid add_rider_grid remove_rider_grid
        create_request_grid advance_tick_grid reset_grid)

lemma run_grid: "grid_invariant s \<Longrightarrow> grid_invariant (run ops s)"
  unfolding run_def by (induction ops arbitrary: s) (simp_all add: apply_operation_grid)

lemma reachable_grid: "reachable s \<Longrightarrow> grid_invariant s"
  by (auto simp: reachable_def intro: run_grid grid_invariant_new_engine)

text \<open>
  Claim C10. In every engine state that a sequence of public operations can reach,
  whether the calls returned or raised, every driver stands inside the 20 by 20 grid.
\<close>

theorem drivers_stay_in_grid:
  assumes "reachable s"
  shows "\<forall>d\<in>set (drivers s). 0 \<le> d_x d \<and> d_x d < 20 \<and> 0 \<le> d_y d \<and> d_y d < 20"
  using reachable_grid [OF assms]
  by (simp add: grid_invariant_def list_all_iff driver_ok_def is_valid_position_iff)

theorem drivers_stay_in_grid_witness:
  "reachable (run [Add_driver 19 19, Add_rider 0 0 19 0, Advance_tick, Advance_tick] new_engine)
   \<and> map (\<lambda>d. (d_x d, d_y d))
       (drivers (run [Add_driver 19 19, Add_rider 0 0 19 0, Advance_tick, Advance_tick] new_engine))
       = [(17, 17)]
   \<and> list_all (\<lambda>d. 0 \<le> d_x d \<and> d_x d < 20 \<and> 0 \<le> d_y d \<and> d_y d < 20)
       (drivers (run [Add_driver 19 19, Add_rider 0 0 19 0, Advance_tick, Advance_tick] new_engine))"
proof -
  have r: "reachable (run [Add_driver 19 19, Add_rider 0 0 19 0, Advance_tick, Advance_tick]
                        new_engine)"
    by (rule reachable_run)
  have e: "map (\<lambda>d. (d_x d, d_y d))
       (drivers (run [Add_driver 19 19, Add_rider 0 0 19 0, Advance_tick, Advance_tick] new_engine))
       = [(17, 17)]" by code_simp
  show ?thesis using drivers_stay_in_grid [OF r] r e by (simp add: list_all_iff)
qed

subsection \<open>Idle ticks of a driver that completes its trip\<close>

lemma fold_update_length [simp]:
  "length (fold (\<lambda>i acc. acc[i := f (acc ! i)]) js ds) = length ds"
  by (induction js arbitrary: ds) simp_all

lemma fold_update_nth:
  assumes "distinct js" "k < length ds"
  shows "fold (\<lambda>i acc. acc[i := f (acc ! i)]) js ds ! k
           = (if k \<in> set js then f (ds ! k) else ds ! k)"
  using assms
proof (induction js arbitrary: ds)
  case Nil
  then show ?case by simp
next
  case (Cons j js)
  have l: "k < length (ds[j := f (ds ! j)])" using Cons.prems(2) by simp
  have "fold (\<lambda>i acc. acc[i := f (acc ! i)]) js (ds[j := f (ds ! j)]) ! k
           = (if k \<in> set js then f (ds[j := f (ds ! j)] ! k) else ds[j := f (ds ! j)] ! k)"
    using Cons.prems(1) by (intro Cons.IH [OF _ l]) simp
  then show ?case using Cons.prems by (cases "k = j") (auto simp: nth_list_update)
qed

lemma increment_available_length [simp]:
  "length (increment_available ds) = length ds"
  by (simp add: increment_available_def)

lemma increment_available_nth:
  assumes "k < length ds"
  shows "increment_available ds ! k
           = (if d_status (ds ! k) = available then increment_idle_ticks (ds ! k) else ds ! k)"
proof -
  have "distinct (get_available_drivers ds)" by (simp add: get_available_drivers_def)
  from fold_update_nth [OF this assms, of increment_idle_ticks]
  show ?thesis using assms by (simp add: increment_available_def get_available_drivers_def)
qed

lemma moved_or_completed_refl [simp]: "moved_or_completed d d"
  by (simp add: moved_or_completed_def)

lemma move_driver_one_step_totalTrips [simp]:
  "totalTrips (move_driver_one_step d) = totalTrips d"
  by (simp add: move_driver_one_step_def Let_def split: option.splits)

lemma engine_complete_trip_returns:
  assumes "fst (engine_complete_trip i req s) = Inr ()"
  shows "drivers (snd (engine_complete_trip i req s))
           = (drivers s)[i := complete_trip (drivers s ! i)]"
proof -
  let ?s3 = "snd (remove_rider (rider_id req)
          (s\<lparr>requests := store_request (complete_request req) (requests s),
             drivers := (drivers s)[i := complete_trip (drivers s ! i)]\<rparr>))"
  have "fst (engine_process_queue ?s3) = Inr ()"
    using assms by (simp only: engine_complete_trip_unfold)
  then have "snd (engine_process_queue ?s3) = ?s3" by (rule engine_process_queue_noop)
  then have "snd (engine_complete_trip i req s) = ?s3"
    by (simp only: engine_complete_trip_unfold)
  then show ?thesis by simp
qed

lemma engine_move_driver_one_step_returns:
  assumes "fst (engine_move_driver_one_step j s) = Inr ()"
  shows "length (drivers (snd (engine_move_driver_one_step j s))) = length (drivers s)
       \<and> (\<forall>k. k \<noteq> j \<longrightarrow> drivers (snd (engine_move_driver_one_step j s)) ! k = drivers s ! k)
       \<and> (j < length (drivers s) \<longrightarrow>
            moved_or_completed (drivers s ! j)
              (drivers (snd (engine_move_driver_one_step j s)) ! j))"
proof -
  let ?drv = "move_driver_one_step (drivers s ! j)"
  let ?s1 = "s\<lparr>drivers := (drivers s)[j := ?drv]\<rparr>"
  let ?at_target = "targetX ?drv \<noteq> None \<and> targetY ?drv \<noteq> None
            \<and> Some (d_x ?drv) = targetX ?drv \<and> Some (d_y ?drv) = targetY ?drv"
  have plain: "length (drivers ?s1) = length (drivers s)
       \<and> (\<forall>k. k \<noteq> j \<longrightarrow> drivers ?s1 ! k = drivers s ! k)
       \<and> (j < length (drivers s) \<longrightarrow> moved_or_completed (drivers s ! j) (drivers ?s1 ! j))"
    by (simp add: moved_or_completed_def)
  consider (stay) "engine_move_driver_one_step j s = (Inr (), ?s1)"
    | (pickup) req :: request where "engine_move_driver_one_step j s =
          (Inr (), ?s1\<lparr>drivers := (drivers ?s1)[j := ?drv\<lparr>tripPhase := Some to_dropoff,
               targetX := Some (dropoff_x req), targetY := Some (dropoff_y req)\<rparr>]\<rparr>)"
    | (dropoff) req where "engine_move_driver_one_step j s = engine_complete_trip j req ?s1"
  proof (cases ?at_target)
    case False
    then have "engine_move_driver_one_step j s = (Inr (), ?s1)"
      by (auto simp: engine_move_driver_one_step_def Let_def)
    then show ?thesis by (rule stay)
  next
    case True
    show ?thesis
    proof (cases "get_request (assignedRequestId ?drv) ?s1")
      case None
      then have "engine_move_driver_one_step j s = (Inr (), ?s1)"
        using True by (simp add: engine_move_driver_one_step_def Let_def)
      then show ?thesis by (rule stay)
    next
      case (Some req)
      show ?thesis
      proof (cases "tripPhase ?drv")
        case None
        then have "engine_move_driver_one_step j s = (Inr (), ?s1)"
          using True Some by (simp add: engine_move_driver_one_step_def Let_def)
        then show ?thesis by (rule stay)
      next
        case (Some ph)
        show ?thesis
        proof (cases ph)
          case to_pickup
          then have "engine_move_driver_one_step j s =
             (Inr (), ?s1\<lparr>drivers := (drivers ?s1)[j := ?drv\<lparr>tripPhase := Some to_dropoff,
               targetX := Some (dropoff_x req), targetY := Some (dropoff_y req)\<rparr>]\<rparr>)"
            using True \<open>get_request (assignedRequestId ?drv) ?s1 = Some req\<close> Some
            by (simp add: engine_move_driver_one_step_def Let_def)
          then show ?thesis by (rule pickup)
        next
          case to_dropoff
          then have "engine_move_driver_one_step j s = engine_complete_trip j req ?s1"
            using True \<open>get_request (assignedRequestId ?drv) ?s1 = Some req\<close> Some
            by (simp add: engine_move_driver_one_step_def Let_def)
          then show ?thesis by (rule dropoff)
        qed
      qed
    qed
  qed
  then show ?thesis
  proof cases
    case stay
    then show ?thesis using plain by simp
  next
    case (pickup req)
    then show ?thesis by (simp add: moved_or_completed_def)
  next
    case (dropoff req)
    then have "fst (engine_complete_trip j req ?s1) = Inr ()" using assms by simp
    from engine_complete_trip_returns [OF this]
    have "drivers (snd (engine_move_driver_one_step j s))
            = (drivers ?s1)[j := complete_trip (drivers ?s1 ! j)]"
      using dropoff by simp
    then show ?thesis
      by (simp add: moved_or_completed_def complete_trip_def)
  qed
qed

lemma move_busy_drivers_returns:
  assumes "fst (move_busy_drivers js s) = Inr ()" "distinct js"
  shows "length (drivers (snd (move_busy_drivers js s))) = length (drivers s)
       \<and> (\<forall>k. (k \<notin> set js \<longrightarrow> drivers (snd (move_busy_drivers js s)) ! k = drivers s ! k)
              \<and> (k < length (drivers s) \<longrightarrow>
                   moved_or_completed (drivers s ! k)
                     (drivers (snd (move_busy_drivers js s)) ! k)))"
  using assms
proof (induction js arbitrary: s)
  case Nil
  then show ?case by simp
next
  case (Cons j js)
  let ?m = "engine_move_driver_one_step j s"
  have r: "fst ?m = Inr ()"
    using Cons.prems(1) by (cases ?m; cases "fst ?m") auto
  then have e: "move_busy_drivers (j # js) s = move_busy_drivers js (snd ?m)"
    by (cases ?m) auto
  from engine_move_driver_one_step_returns [OF r]
  have len: "length (drivers (snd ?m)) = length (drivers s)"
    and other: "\<And>k. k \<noteq> j \<Longrightarrow> drivers (snd ?m) ! k = drivers s ! k"
    and self: "j < length (drivers s) \<Longrightarrow> moved_or_completed (drivers s ! j) (drivers (snd ?m) ! j)"
    by simp_all
  have "fst (move_busy_drivers js (snd ?m)) = Inr ()" using Cons.prems(1) e by simp
  from Cons.IH [OF this] Cons.prems(2)
  have len': "length (drivers (snd (move_busy_drivers js (snd ?m)))) = length (drivers (snd ?m))"
    and same: "\<And>k. k \<notin> set js \<Longrightarrow>
                 drivers (snd (move_busy_drivers js (snd ?m))) ! k = drivers (snd ?m) ! k"
    and eff: "\<And>k. k < length (drivers (snd ?m)) \<Longrightarrow>
                 moved_or_completed (drivers (snd ?m) ! k)
                   (drivers (snd (move_busy_drivers js (snd ?m))) ! k)"
    by simp_all
  have "moved_or_completed (drivers s ! k)
          (drivers (snd (move_busy_drivers js (snd ?m))) ! k)"
    if k: "k < length (drivers s)" for k
  proof (cases "k = j")
    case True
    then have "k \<notin> set js" using Cons.prems(2) by simp
    then show ?thesis using same [of k] self True k by simp
  next
    case False
    then show ?thesis using other [of k] eff [of k] k len by simp
  qed
  then show ?case using e len len' other same by simp
qed

lemma advance_tick_returns:
  assumes "advance_tick s = (Inr (), s')"
  shows "fst (move_busy_drivers (get_busy_drivers (drivers s)) s) = Inr ()
       \<and> drivers s' = increment_available
            (drivers (snd (move_busy_drivers (get_busy_drivers (drivers s)) s)))"
proof -
  let ?m = "move_busy_drivers (get_busy_drivers (drivers s)) s"
  let ?s2 = "snd ?m\<lparr>drivers := increment_available (drivers (snd ?m))\<rparr>"
  have r: "fst ?m = Inr ()"
    using assms by (cases ?m; cases "fst ?m") (auto simp: advance_tick_def)
  then have e: "advance_tick s = engine_process_queue ?s2"
    by (cases ?m) (auto simp: advance_tick_def)
  then have pq: "engine_process_queue ?s2 = (Inr (), s')" using assms by simp
  then have "fst (engine_process_queue ?s2) = Inr ()" by simp
  then have "snd (engine_process_queue ?s2) = ?s2" by (rule engine_process_queue_noop)
  then have "s' = ?s2" using pq by simp
  then show ?thesis using r by simp
qed

lemma get_busy_drivers_distinct: "distinct (get_busy_drivers ds)"
  by (simp add: get_busy_drivers_def)

text \<open>
  Claim C3 says that a driver that completes its trip during \<open>advance_tick\<close> and is not
  reassigned in that tick has \<open>idleTicks = 0\<close> when the call ends. In the code the idle
  increment runs over the drivers that are available after the movement loop, and the
  driver that has just completed its trip is one of them. With one driver and one
  rider (pickup one step away, dropoff one step further), the second tick completes
  the trip and returns; the driver is available and its \<open>idleTicks\<close> is 1.
\<close>

theorem completed_driver_idle_counterexample:
  "fst (advance_tick (run [Add_driver 0 0, Add_rider 0 1 0 2, Advance_tick] new_engine)) = Inr ()
   \<and> d_status (drivers (run [Add_driver 0 0, Add_rider 0 1 0 2, Advance_tick] new_engine) ! 0)
       = on_trip
   \<and> totalTrips (drivers (run [Add_driver 0 0, Add_rider 0 1 0 2, Advance_tick] new_engine) ! 0)
       = 0
   \<and> totalTrips (drivers (snd (advance_tick
           (run [Add_driver 0 0, Add_rider 0 1 0 2, Advance_tick] new_engine))) ! 0) = 1
   \<and> d_status (drivers (snd (advance_tick
           (run [Add_driver 0 0, Add_rider 0 1 0 2, Advance_tick] new_engine))) ! 0) = available
   \<and> idleTicks (drivers (snd (advance_tick
           (run [Add_driver 0 0, Add_rider 0 1 0 2, Advance_tick] new_engine))) ! 0) = 1
   \<and> idleTicks (drivers (snd (advance_tick
           (run [Add_driver 0 0, Add_rider 0 1 0 2, Advance_tick] new_engine))) ! 0) \<noteq> 0"
  by code_simp

text \<open>
  Claim C3 as amended. \<open>complete_trip\<close> is the only code that changes \<open>totalTrips\<close>, so a
  driver completed its trip during the call exactly when its trip count differs
  before and after. For every call of \<open>advance_tick\<close> that returns, a driver that
  completed its trip during the call and is available at its end (not reassigned)
  has \<open>idleTicks = 1\<close>: the idle increment of the same tick has counted it.
\<close>

theorem completed_driver_idle_after_tick:
  assumes "advance_tick s = (Inr (), s')"
    and "i < length (drivers s)"
    and "totalTrips (drivers s' ! i) \<noteq> totalTrips (drivers s ! i)"
    and "d_status (drivers s' ! i) = available"
  shows "idleTicks (drivers s' ! i) = 1
       \<and> totalTrips (drivers s' ! i) = totalTrips (drivers s ! i) + 1"
proof -
  let ?m = "move_busy_drivers (get_busy_drivers (drivers s)) s"
  from advance_tick_returns [OF assms(1)]
  have r: "fst ?m = Inr ()" and d': "drivers s' = increment_available (drivers (snd ?m))"
    by simp_all
  from move_busy_drivers_returns [OF r get_busy_drivers_distinct]
  have len: "length (drivers (snd ?m)) = length (drivers s)"
    and eff: "moved_or_completed (drivers s ! i) (drivers (snd ?m) ! i)"
    using assms(2) by simp_all
  have i': "i < length (drivers (snd ?m))" using len assms(2) by simp
  have nth: "drivers s' ! i =
      (if d_status (drivers (snd ?m) ! i) = available
       then increment_idle_ticks (drivers (snd ?m) ! i) else drivers (snd ?m) ! i)"
    unfolding d' by (rule increment_available_nth [OF i'])
  have tt: "totalTrips (drivers s' ! i) = totalTrips (drivers (snd ?m) ! i)"
    using nth by (simp add: increment_idle_ticks_def)
  with assms(3) have "totalTrips (drivers (snd ?m) ! i) \<noteq> totalTrips (drivers s ! i)" by simp
  with eff have c: "d_status (drivers (snd ?m) ! i) = available"
    "idleTicks (drivers (snd ?m) ! i) = 0"
    "totalTrips (drivers (snd ?m) ! i) = totalTrips (drivers s ! i) + 1"
    by (auto simp: moved_or_completed_def)
  show ?thesis using nth c tt by (simp add: increment_idle_ticks_def)
qed

theorem completed_driver_idle_after_tick_witness:
  "advance_tick (run [Add_driver 0 0, Add_rider 0 1 0 2, Advance_tick] new_engine)
     = (Inr (), snd (advance_tick (run [Add_driver 0 0, Add_rider 0 1 0 2, Advance_tick] new_engine)))
   \<and> 0 < length (drivers (run [Add_driver 0 0, Add_rider 0 1 0 2, Advance_tick] new_engine))
   \<and> totalTrips (drivers (run [Add_driver 0 0, Add_rider 0 1 0 2, Advance_tick] new_engine) ! 0) = 0
   \<and> d_status (drivers (snd (advance_tick
         (run [Add_driver 0 0, Add_rider 0 1 0 2, Advance_tick] new_engine))) ! 0) = available
   \<and> idleTicks (drivers (snd (advance_tick
         (run [Add_driver 0 0, Add_rider 0 1 0 2, Advance_tick] new_engine))) ! 0) = 1
   \<and> totalTrips (drivers (snd (advance_tick
         (run [Add_driver 0 0, Add_rider 0 1 0 2, Advance_tick] new_engine))) ! 0) = 1"
proof -
  let ?s = "run [Add_driver 0 0, Add_rider 0 1 0 2, Advance_tick] new_engine"
  have f: "fst (advance_tick ?s) = Inr ()" by code_simp
  then have a: "advance_tick ?s = (Inr (), snd (advance_tick ?s))"
    by (cases "advance_tick ?s") simp
  have b: "0 < length (drivers ?s)" by code_simp
  have t0: "totalTrips (drivers ?s ! 0) = 0" by code_simp
  have t1: "totalTrips (drivers (snd (advance_tick ?s)) ! 0) = 1" by code_simp
  have c: "totalTrips (drivers (snd (advance_tick ?s)) ! 0) \<noteq> totalTrips (drivers ?s ! 0)"
    using t0 t1 by simp
  have d: "d_status (drivers (snd (advance_tick ?s)) ! 0) = available" by code_simp
  from completed_driver_idle_after_tick [OF a b c d]
  show ?thesis using a b t0 t1 d by simp
qed

subsection \<open>The registry never shows a completed request\<close>

lemma process_queue_processed_assigned:
  assumes "p \<in> set (snd (snd (process_queue ds queue pool)))"
  shows "r_status p = assigned"
proof (cases "pool = [] \<or> queue = []")
  case True
  then show ?thesis using assms by (simp add: process_queue_processed)
next
  case False
  from process_loop_no_double_booking [of ds pool queue]
  show ?thesis using False assms
    by (auto simp: process_queue_processed no_double_booking_def)
qed

lemma store_request_status:
  "list_all (\<lambda>p. r_status (snd p) \<noteq> completed) reqs \<Longrightarrow> r_status r \<noteq> completed \<Longrightarrow>
     list_all (\<lambda>p. r_status (snd p) \<noteq> completed) (store_request r reqs)"
  by (induction reqs) (simp_all add: store_request_def)

lemma fold_store_request_status:
  "list_all (\<lambda>p. r_status (snd p) \<noteq> completed) reqs \<Longrightarrow>
   list_all (\<lambda>r. r_status r \<noteq> completed) ps \<Longrightarrow>
     list_all (\<lambda>p. r_status (snd p) \<noteq> completed) (fold store_request ps reqs)"
  by (induction ps arbitrary: reqs) (simp_all add: store_request_status)

lemma engine_process_queue_none_completed:
  assumes "none_completed s"
  shows "none_completed (snd (engine_process_queue s))"
proof -
  let ?ps = "snd (snd (process_queue (drivers s) (request_queue s)
                         (get_available_drivers (drivers s))))"
  have a: "list_all (\<lambda>r. r_status r \<noteq> completed) ?ps"
    using process_queue_processed_assigned
      [of _ "drivers s" "request_queue s" "get_available_drivers (drivers s)"]
    by (auto simp: list_all_iff)
  have f: "list_all (\<lambda>p. r_status (snd p) \<noteq> completed) (fold store_request ?ps (requests s))"
    using assms a unfolding none_completed_def by (rule fold_store_request_status)
  show ?thesis
  proof (cases ?ps)
    case Nil
    then show ?thesis using assms by (simp add: none_completed_def engine_process_queue_requests)
  next
    case (Cons req rest)
    have "list_all (\<lambda>p. r_status (snd p) \<noteq> completed)
            (store_request (req\<lparr>r_status := assigned\<rparr>) (fold store_request ?ps (requests s)))"
      using f by (rule store_request_status) simp
    then show ?thesis using Cons
      by (simp add: none_completed_def engine_process_queue_requests)
  qed
qed

lemma add_driver_none_completed:
  assumes "none_completed s"
  shows "none_completed (snd (add_driver x y s))"
proof (cases "is_valid_position x y")
  case False
  then show ?thesis using assms by (simp add: add_driver_invalid)
next
  case True
  let ?s1 = "s\<lparr>driver_counter := driver_counter s + 1,
               drivers := drivers s @ [mk_driver (driver_counter s + 1) x y 0 0]\<rparr>"
  have "none_completed ?s1" using assms by (simp add: none_completed_def)
  then have "none_completed (snd (engine_process_queue ?s1))"
    by (rule engine_process_queue_none_completed)
  then show ?thesis by (simp add: add_driver_valid [OF True] Let_def)
qed

lemma create_and_dispatch_none_completed:
  assumes "none_completed s"
  shows "none_completed
     (let (req, s2) = request_service_create_request rdr s;
          (ok, req', s3) = try_assign_request req s2
      in if \<not> ok then s3\<lparr>request_queue := request_queue s3 @ [req']\<rparr> else s3)"
proof -
  let ?req = "fst (request_service_create_request rdr s)"
  let ?s2 = "snd (request_service_create_request rdr s)"
  have g2: "none_completed ?s2"
    using assms
    by (simp add: none_completed_def request_service_create_request_def Let_def list_all_dict_set)
  have "none_completed (snd (snd (try_assign_request ?req ?s2)))"
    using g2
    by (auto simp: try_assign_request_unfold none_completed_def store_request_status
        split: sum.splits)
  then show ?thesis by (simp add: case_prod_beta Let_def none_completed_def)
qed

lemma add_rider_none_completed:
  assumes "none_completed s"
  shows "none_completed (snd (add_rider px py dx dy s))"
proof (cases "is_valid_position px py \<and> is_valid_position dx dy")
  case False
  then show ?thesis using assms by (simp add: add_rider_invalid)
next
  case True
  let ?rdr = "\<lparr>rider_ident = rider_counter s + 1, rider_pickup_x = px, rider_pickup_y = py,
                    rider_dropoff_x = dx, rider_dropoff_y = dy\<rparr>"
  let ?s1 = "s\<lparr>rider_counter := rider_counter s + 1,
               riders := dict_set (rider_counter s + 1) ?rdr (riders s)\<rparr>"
  have g1: "none_completed ?s1" using assms by (simp add: none_completed_def)
  have "snd (add_rider px py dx dy s) =
     (let (req, s2) = request_service_create_request ?rdr ?s1;
          (ok, req', s3) = try_assign_request req s2
      in if \<not> ok then s3\<lparr>request_queue := request_queue s3 @ [req']\<rparr> else s3)"
    using True
    by (simp add: add_rider_def rider_service_add_rider_def Let_def case_prod_beta)
  then show ?thesis using create_and_dispatch_none_completed [OF g1, of ?rdr] by simp
qed

lemma create_request_none_completed:
  assumes "none_completed s"
  shows "none_completed (snd (create_request rid s))"
proof (cases "map_of (riders s) rid")
  case None
  then show ?thesis using assms by (simp add: create_request_def)
next
  case (Some rdr)
  have "snd (create_request rid s) =
     (let (req, s2) = request_service_create_request rdr s;
          (ok, req', s3) = try_assign_request req s2
      in if \<not> ok then s3\<lparr>request_queue := request_queue s3 @ [req']\<rparr> else s3)"
    using Some by (simp add: create_request_def Let_def case_prod_beta)
  then show ?thesis using create_and_dispatch_none_completed [OF assms, of rdr] by simp
qed

lemma remove_rider_none_completed:
  "none_completed s \<Longrightarrow> none_completed (snd (remove_rider rid s))"
  by (auto simp: none_completed_def remove_requests_for_rider_def list_all_iff)

lemma remove_completed_request:
  "list_all (\<lambda>p. r_status (snd p) \<noteq> completed) reqs \<Longrightarrow>
     list_all (\<lambda>p. r_status (snd p) \<noteq> completed)
       (remove_requests_for_rider (rider_id req) (store_request (complete_request req) reqs))"
  by (induction reqs)
     (auto simp: remove_requests_for_rider_def store_request_def complete_request_def)

lemma engine_complete_trip_none_completed:
  assumes "none_completed s"
  shows "none_completed (snd (engine_complete_trip i req s))"
proof -
  let ?s2 = "s\<lparr>requests := store_request (complete_request req) (requests s),
               drivers := (drivers s)[i := complete_trip (drivers s ! i)]\<rparr>"
  have "none_completed (snd (remove_rider (rider_id req) ?s2))"
    using assms remove_completed_request [of "requests s" req]
    by (simp add: none_completed_def)
  then show ?thesis
    by (simp only: engine_complete_trip_unfold engine_process_queue_none_completed)
qed

lemma engine_move_driver_one_step_none_completed:
  assumes "none_completed s"
  shows "none_completed (snd (engine_move_driver_one_step i s))"
proof -
  let ?drv = "move_driver_one_step (drivers s ! i)"
  let ?s1 = "s\<lparr>drivers := (drivers s)[i := ?drv]\<rparr>"
  have g1: "none_completed ?s1" using assms by (simp add: none_completed_def)
  have c: "none_completed (snd (engine_complete_trip i req ?s1))" for req
    using g1 by (rule engine_complete_trip_none_completed)
  show ?thesis
    using g1 c
    by (auto simp: engine_move_driver_one_step_def Let_def none_completed_def
        split: option.splits TripPhase.splits)
qed

lemma move_busy_drivers_none_completed:
  "none_completed s \<Longrightarrow> none_completed (snd (move_busy_drivers js s))"
proof (induction js arbitrary: s)
  case Nil
  then show ?case by simp
next
  case (Cons j js)
  have g: "none_completed (snd (engine_move_driver_one_step j s))"
    using Cons.prems by (rule engine_move_driver_one_step_none_completed)
  show ?case
  proof (cases "engine_move_driver_one_step j s")
    case (Pair r s')
    then show ?thesis using g Cons.IH [of s'] by (cases r) simp_all
  qed
qed

lemma advance_tick_none_completed:
  assumes "none_completed s"
  shows "none_completed (snd (advance_tick s))"
proof -
  let ?m = "move_busy_drivers (get_busy_drivers (drivers s)) s"
  have g1: "none_completed (snd ?m)" using assms by (rule move_busy_drivers_none_completed)
  then have "none_completed (snd ?m\<lparr>drivers := increment_available (drivers (snd ?m))\<rparr>)"
    by (simp add: none_completed_def)
  then have "none_completed (snd (engine_process_queue
                (snd ?m\<lparr>drivers := increment_available (drivers (snd ?m))\<rparr>)))"
    by (rule engine_process_queue_none_completed)
  then show ?thesis using g1
    by (cases ?m; cases "fst ?m") (simp_all add: advance_tick_def)
qed

lemma apply_operation_none_completed:
  "none_completed s \<Longrightarrow> none_completed (apply_operation operation s)"
  by (cases operation)
     (simp_all add: add_driver_none_completed add_rider_none_completed
        remove_rider_none_completed create_request_none_completed
        advance_tick_none_completed,
      simp_all add: none_completed_def reset_def)

lemma run_none_completed: "none_completed s \<Longrightarrow> none_completed (run ops s)"
  unfolding run_def
  by (induction ops arbitrary: s) (simp_all add: apply_operation_none_completed)

text \<open>
  A consequence for the statistics: whatever calls are made, the registry never holds
  a completed request, and \<open>get_stats\<close> reports zero completed rides.
\<close>

lemma completed_rides_always_zero:
  assumes "reachable s"
  shows "completedRides (get_stats s) = 0"
proof -
  have "none_completed new_engine" by (simp add: none_completed_def new_engine_def)
  then have "none_completed s"
    using assms by (auto simp: reachable_def intro: run_none_completed)
  then have "filter (\<lambda>req. r_status req = completed) (map snd (requests s)) = []"
    by (auto simp: none_completed_def list_all_iff filter_empty_conv)
  then show ?thesis by (simp add: get_stats_def get_completed_requests_def)
qed

end
